theory Spec2Isabelle
  imports Main "HOL-Library.Sublist" "HOL-Library.Code_Target_Nat"
begin

section \<open>Python strings\<close>

text \<open>
  A Python \<open>str\<close> is a sequence of Unicode code points, and \<open>len\<close> counts code points.
  A code point is modelled by its number, so that lengths and character classes are
  those of the source. \<open>lit\<close> turns a literal of the source into that form.
\<close>

type_synonym codepoint = nat
type_synonym str = "codepoint list"

definition lit :: "string \<Rightarrow> str" where
  "lit s = map of_char s"

abbreviation NL :: codepoint where
  "NL \<equiv> 10"

text \<open>
  \<open>str.isspace\<close> for one character, which is also what \<open>str.strip()\<close> removes and what
  \<open>\s\<close> matches in a \<open>str\<close> pattern: the ASCII whitespace \<open>\t \n \v \f \r\<close>,
  \<open>0x1c..0x1f\<close> and the space, and the Unicode whitespace beyond ASCII.
\<close>

definition isspace :: "codepoint \<Rightarrow> bool" where
  "isspace c \<longleftrightarrow>
     (9 \<le> c \<and> c \<le> 13) \<or> (28 \<le> c \<and> c \<le> 32) \<or> c = 133 \<or> c = 160 \<or> c = 5760 \<or>
     (8192 \<le> c \<and> c \<le> 8202) \<or> c = 8232 \<or> c = 8233 \<or> c = 8239 \<or> c = 8287 \<or> c = 12288"

definition lstrip :: "str \<Rightarrow> str" where
  "lstrip s = dropWhile isspace s"

definition rstrip :: "str \<Rightarrow> str" where
  "rstrip s = rev (dropWhile isspace (rev s))"

definition strip :: "str \<Rightarrow> str" where
  "strip s = rstrip (lstrip s)"

text \<open>
  \<open>s.split(sep)\<close> for a separator that is not empty: the pieces between the
  occurrences of \<open>sep\<close>, found from the left and not overlapping. The result is never
  empty. The source splits at the literal \<open>'\n'\<close>, and with
  \<^verbatim>\<open>re.split(r'\n## ', content)\<close>, whose pattern is a literal without groups, so that
  it is \<open>content.split('\n## ')\<close>.
\<close>

function split :: "str \<Rightarrow> str \<Rightarrow> str list" where
  "split sep [] = [[]]"
| "split sep (c # cs) =
     (if sep \<noteq> [] \<and> prefix sep (c # cs)
      then [] # split sep (drop (length sep) (c # cs))
      else (case split sep cs of [] \<Rightarrow> [[c]] | p # ps \<Rightarrow> (c # p) # ps))"
  by pat_completeness auto
termination
  by (relation "measure (\<lambda>(sep, s). length s)") auto

text \<open>\<open>sep.join(xs)\<close>.\<close>

fun join :: "str \<Rightarrow> str list \<Rightarrow> str" where
  "join sep [] = []"
| "join sep [x] = x"
| "join sep (x # y # ys) = x @ sep @ join sep (y # ys)"

text \<open>
  \<open>s.find(sub, start)\<close> for \<open>start \<ge> 0\<close>: the least index at or after \<open>start\<close> where
  \<open>sub\<close> occurs in \<open>s\<close>; \<open>None\<close> stands for the result \<open>-1\<close>.
\<close>

fun find_aux :: "str \<Rightarrow> str \<Rightarrow> nat \<Rightarrow> nat option" where
  "find_aux sub [] i = (if sub = [] then Some i else None)"
| "find_aux sub (c # cs) i = (if prefix sub (c # cs) then Some i else find_aux sub cs (i + 1))"

definition find_str :: "str \<Rightarrow> str \<Rightarrow> nat \<Rightarrow> nat option" where
  "find_str s sub start = (if length s < start then None else find_aux sub (drop start s) start)"

text \<open>
  \<open>s.splitlines()\<close>: the lines of \<open>s\<close>, cut at every line boundary that Python knows
  (\<open>\n\<close>, \<open>\r\<close>, \<open>\r\n\<close>, \<open>\v\<close>, \<open>\f\<close>, \<open>\x1c\<close>, \<open>\x1d\<close>, \<open>\x1e\<close>, \<open>\x85\<close>,
  U+2028 and U+2029), the boundaries left out, and no empty last line.
\<close>

definition is_linebreak :: "codepoint \<Rightarrow> bool" where
  "is_linebreak c \<longleftrightarrow> c \<in> {10, 11, 12, 13, 28, 29, 30, 133, 8232, 8233}"

fun splitlines :: "str \<Rightarrow> str list" where
  "splitlines [] = []"
| "splitlines [c] = (if is_linebreak c then [[]] else [[c]])"
| "splitlines (c # d # cs) =
     (if c = 13 \<and> d = 10 then [] # splitlines cs
      else if is_linebreak c then [] # splitlines (d # cs)
      else (case splitlines (d # cs) of [] \<Rightarrow> [[c]] | l # ls \<Rightarrow> (c # l) # ls))"

section \<open>remove\_empty\_headings.py\<close>

text \<open>\<open>re.match(r'^## ', line)\<close>: the line starts with two hash marks and a space.\<close>

definition match_h2 :: "str \<Rightarrow> bool" where
  "match_h2 line \<longleftrightarrow> prefix (lit ''## '') line"

text \<open>
  The inner loop of both functions:
  \<^verbatim>\<open>while j < len(lines) and lines[j].strip() == '': j += 1\<close>
\<close>

function skip_blank :: "str list \<Rightarrow> nat \<Rightarrow> nat" where
  "skip_blank lines j =
     (if j < length lines \<and> strip (lines ! j) = [] then skip_blank lines (j + 1) else j)"
  by pat_completeness auto
termination
  by (relation "measure (\<lambda>(lines, j). length lines - j)") auto

declare skip_blank.simps [simp del]

text \<open>
  The outer loop of \<open>find_empty_headings\<close>, from index \<open>i\<close> with the list collected so
  far; line numbers are 1-based.
\<close>

function find_loop :: "str list \<Rightarrow> nat \<Rightarrow> (nat \<times> str) list \<Rightarrow> (nat \<times> str) list" where
  "find_loop lines i empty_headings =
     (if i < length lines then
        (let line = lines ! i in
         if match_h2 line then
           (let j = skip_blank lines (i + 1) in
            if j < length lines \<and> match_h2 (lines ! j)
            then find_loop lines (i + 1) (empty_headings @ [(i + 1, line)])
            else find_loop lines (i + 1) empty_headings)
         else find_loop lines (i + 1) empty_headings)
      else empty_headings)"
  by pat_completeness auto
termination
  by (relation "measure (\<lambda>(lines, i, acc). length lines - i)") auto

declare find_loop.simps [simp del]

definition find_empty_headings :: "str \<Rightarrow> (nat \<times> str) list" where
  "find_empty_headings content = find_loop (split [NL] content) 0 []"

text \<open>The outer loop of \<open>remove_empty_headings\<close>, with the set \<open>lines_to_remove\<close>.\<close>

function remove_loop :: "str list \<Rightarrow> nat \<Rightarrow> nat set \<Rightarrow> nat set" where
  "remove_loop lines i lines_to_remove =
     (if i < length lines then
        (let line = lines ! i in
         if match_h2 line then
           (let j = skip_blank lines (i + 1) in
            if j < length lines \<and> match_h2 (lines ! j)
            then remove_loop lines (i + 1) (insert i lines_to_remove)
            else remove_loop lines (i + 1) lines_to_remove)
         else remove_loop lines (i + 1) lines_to_remove)
      else lines_to_remove)"
  by pat_completeness auto
termination
  by (relation "measure (\<lambda>(lines, i, acc). length lines - i)") auto

declare remove_loop.simps [simp del]

text \<open>The set \<open>lines_to_remove\<close> when the loop of \<open>remove_empty_headings\<close> has ended.\<close>

definition lines_to_remove :: "str \<Rightarrow> nat set" where
  "lines_to_remove content = remove_loop (split [NL] content) 0 {}"

text \<open>
  \<^verbatim>\<open>new_lines = [line for i, line in enumerate(lines) if i not in lines_to_remove]\<close>
\<close>

definition new_lines :: "str list \<Rightarrow> nat set \<Rightarrow> str list" where
  "new_lines lines rem = map snd (filter (\<lambda>(i, line). i \<notin> rem) (enumerate 0 lines))"

definition remove_empty_headings :: "str \<Rightarrow> str \<times> nat" where
  "remove_empty_headings content =
     (let lines = split [NL] content
      in (join [NL] (new_lines lines (lines_to_remove content)), card (lines_to_remove content)))"

text \<open>
  \<open>process_file\<close> on the content read from the file: the statistics it returns
  (without the key \<open>file\<close>, the path) and the content it writes back, if it writes. The
  key \<open>empty_headings\<close> is absent from the dictionary of a file without empty headings.
\<close>

record file_stats =
  empty_count :: nat
  removed :: nat
  empty_headings :: "str list option"

definition process_file :: "str \<Rightarrow> bool \<Rightarrow> file_stats \<times> str option" where
  "process_file original_content dry_run =
     (let found = find_empty_headings original_content in
      if found = [] then (\<lparr>empty_count = 0, removed = 0, empty_headings = None\<rparr>, None)
      else
        (let (new_content, removed_count) = remove_empty_headings original_content in
         (\<lparr>empty_count = length found, removed = removed_count,
           empty_headings = Some (map snd found)\<rparr>,
          if \<not> dry_run then Some new_content else None)))"

section \<open>validate.py: issues\<close>

text \<open>
  A YAML value as \<open>yaml.safe_load\<close> builds it, as far as the validator looks at it: a
  \<open>str\<close>, a \<open>list\<close>, a \<open>dict\<close> (its items in order), or a value of another type
  (\<open>None\<close>, \<open>bool\<close>, \<open>int\<close>, \<open>float\<close>, \<open>date\<close>, \<open>datetime\<close>, \<open>bytes\<close>, \<open>set\<close>), which is
  given by the text that \<open>str()\<close> returns for it. A value of another type is never
  equal to a \<open>str\<close>, and looking it up in a set of strings raises nothing.
\<close>

datatype yaml = YStr str | YList "yaml list" | YDict "(yaml \<times> yaml) list" | YOther str

text \<open>
  The text of a message: the f-string of the source, as its literal pieces and the
  values it formats. \<open>Num\<close> is an \<open>int\<close> in decimal, \<open>Val\<close> a YAML value under \<open>str()\<close>,
  \<open>TypeName v\<close> is \<open>type(v).__name__\<close>, and \<open>JoinSet sep xs\<close> is \<open>sep.join\<close> of the
  set with the elements \<open>xs\<close>, whose order Python does not fix.
\<close>

datatype part = Lit string | Str str | Num nat | Val yaml | TypeName yaml | JoinSet string "string list"

type_synonym msg = "part list"

text \<open>The dataclass \<open>ValidationIssue\<close>; \<open>level\<close> and \<open>check\<close> only hold literals.\<close>

record ValidationIssue =
  level :: string
  check :: string
  message :: msg
  line_number :: "nat option"
  details :: "msg option"

definition MAX_SECTION_LENGTH :: nat where
  "MAX_SECTION_LENGTH = 1500"

definition CODE_BLOCK_LONG_THRESHOLD :: nat where
  "CODE_BLOCK_LONG_THRESHOLD = 10"

definition VALID_STACKS :: "string list" where
  "VALID_STACKS = [''js-nextjs'', ''sanity'', ''php-wp'', ''cross-stack'']"

definition VALID_PRIORITIES :: "string list" where
  "VALID_PRIORITIES = [''high'', ''medium'', ''low'']"

definition VALID_AUDIENCES :: "string list" where
  "VALID_AUDIENCES = [''frontend'', ''backend'', ''fullstack'']"

definition VALID_COMPLEXITIES :: "string list" where
  "VALID_COMPLEXITIES = [''beginner'', ''intermediate'', ''advanced'']"

definition REQUIRED_FRONTMATTER :: "string list" where
  "REQUIRED_FRONTMATTER =
     [''title'', ''category'', ''subcategory'', ''tags'', ''stack'', ''priority'', ''audience'',
      ''complexity'', ''doc_type'', ''source_confidence'', ''last_updated'']"

text \<open>
  \<open>PRONOUN_PATTERN.match(s)\<close> for
  \<^verbatim>\<open>PRONOUN_PATTERN = re.compile(r'^(It|This|These|They|That|We)\s', re.MULTILINE)\<close>:
  \<open>match\<close> only tries the start of \<open>s\<close>, where one of the words, in the case written,
  is followed by a whitespace character.
\<close>

definition PRONOUNS :: "string list" where
  "PRONOUNS = [''It'', ''This'', ''These'', ''They'', ''That'', ''We'']"

definition pronoun_match :: "str \<Rightarrow> bool" where
  "pronoun_match s \<longleftrightarrow>
     list_ex (\<lambda>p. prefix (lit p) s \<and> length (lit p) < length s \<and> isspace (s ! length (lit p))) PRONOUNS"

section \<open>validate.py: the frontmatter checker\<close>

text \<open>
  What the checker takes from libraries: \<open>yaml.safe_load\<close>; \<open>str()\<close> of a list or a
  dict; whether \<open>datetime.fromisoformat\<close> accepts a string (it raises \<open>ValueError\<close>
  otherwise); and the decimal digits of Unicode, which \<open>\d\<close> matches.
\<close>

datatype exc = YAMLError str | ValueError | TypeError

record lib =
  safe_load :: "str \<Rightarrow> exc + yaml"
  container_str :: "yaml \<Rightarrow> str"
  fromisoformat :: "str \<Rightarrow> bool"
  isdecimal :: "codepoint \<Rightarrow> bool"

definition py_str :: "lib \<Rightarrow> yaml \<Rightarrow> str" where
  "py_str L v = (case v of YStr s \<Rightarrow> s | YOther t \<Rightarrow> t | _ \<Rightarrow> container_str L v)"

text \<open>
  \<open>v not in S\<close> for a set \<open>S\<close> of strings: a list or a dict cannot be hashed, and
  the lookup raises \<open>TypeError\<close>.
\<close>

definition not_in :: "yaml \<Rightarrow> string list \<Rightarrow> exc + bool" where
  "not_in v S =
     (case v of
        YStr s \<Rightarrow> Inr (s \<notin> set (map lit S))
      | YOther t \<Rightarrow> Inr True
      | YList xs \<Rightarrow> Inl TypeError
      | YDict kvs \<Rightarrow> Inl TypeError)"

text \<open>\<open>key in frontmatter\<close> and \<open>frontmatter[key]\<close> for a key that is a literal.\<close>

definition lookup :: "(yaml \<times> yaml) list \<Rightarrow> string \<Rightarrow> yaml option" where
  "lookup frontmatter key = map_of frontmatter (YStr (lit key))"

text \<open>
  \<open>re.match(r'^\d+%$', s)\<close>: one decimal digit or more, a percent sign, and then the
  end of \<open>s\<close> or one last newline.
\<close>

fun digits_percent :: "lib \<Rightarrow> str \<Rightarrow> bool" where
  "digits_percent L [] = False"
| "digits_percent L (c # cs) =
     ((c = 37 \<and> (cs = [] \<or> cs = [NL])) \<or> (isdecimal L c \<and> digits_percent L cs))"

definition match_confidence :: "lib \<Rightarrow> str \<Rightarrow> bool" where
  "match_confidence L s = (case s of [] \<Rightarrow> False | c # cs \<Rightarrow> isdecimal L c \<and> digits_percent L cs)"

definition issue :: "string \<Rightarrow> string \<Rightarrow> msg \<Rightarrow> ValidationIssue" where
  "issue lv ck m = \<lparr>level = lv, check = ck, message = m, line_number = None, details = None\<rparr>"

definition check_required :: "(yaml \<times> yaml) list \<Rightarrow> ValidationIssue list" where
  "check_required frontmatter =
     (let missing_fields = filter (\<lambda>field. lookup frontmatter field = None) REQUIRED_FRONTMATTER in
      if missing_fields \<noteq> [] then
        [issue ''FAIL'' ''frontmatter_required_fields''
           [Lit ''Missing required frontmatter fields: '', Str (join (lit '', '') (map lit missing_fields))]]
      else [])"

text \<open>
  The four checks of an enumerated field, which differ in the name of the field and in
  the set of its values:
  \<^verbatim>\<open>if 'stack' in frontmatter and frontmatter['stack'] not in VALID_STACKS: ...\<close>
\<close>

definition check_enum :: "(yaml \<times> yaml) list \<Rightarrow> string \<Rightarrow> string list \<Rightarrow> exc + ValidationIssue list" where
  "check_enum frontmatter field valid =
     (case lookup frontmatter field of
        None \<Rightarrow> Inr []
      | Some v \<Rightarrow>
          (case not_in v valid of
             Inl e \<Rightarrow> Inl e
           | Inr b \<Rightarrow>
               Inr (if b then
                      [issue ''FAIL'' (''frontmatter_'' @ field)
                         [Lit (''Invalid '' @ field @ '' value: \"''), Val v,
                          Lit ''\". Must be one of: '', JoinSet '', '' valid]]
                    else [])))"

text \<open>The message ends with the pattern \<open>\d+%\<close>, written here by its code points.\<close>

definition check_confidence :: "lib \<Rightarrow> (yaml \<times> yaml) list \<Rightarrow> ValidationIssue list" where
  "check_confidence L frontmatter =
     (case lookup frontmatter ''source_confidence'' of
        None \<Rightarrow> []
      | Some v \<Rightarrow>
          (let confidence = py_str L v in
           if \<not> match_confidence L confidence then
             [issue ''FAIL'' ''frontmatter_confidence''
                [Lit ''Invalid source_confidence format: \"'', Str confidence,
                 Lit ''\". Must match pattern: '', Str [92, 100, 43, 37]]]
           else []))"

definition check_date :: "lib \<Rightarrow> (yaml \<times> yaml) list \<Rightarrow> ValidationIssue list" where
  "check_date L frontmatter =
     (case lookup frontmatter ''last_updated'' of
        None \<Rightarrow> []
      | Some v \<Rightarrow>
          (let date_str = py_str L v in
           if fromisoformat L date_str then []
           else
             [issue ''FAIL'' ''frontmatter_date''
                [Lit ''Invalid last_updated date: \"'', Val v,
                 Lit ''\". Must be ISO format (YYYY-MM-DD)'']]))"

definition check_tags :: "(yaml \<times> yaml) list \<Rightarrow> ValidationIssue list" where
  "check_tags frontmatter =
     (case lookup frontmatter ''tags'' of
        None \<Rightarrow> []
      | Some tags \<Rightarrow>
          (case tags of
             YList xs \<Rightarrow>
               (if length xs = 0 then [issue ''FAIL'' ''frontmatter_tags'' [Lit ''Tags list must not be empty'']]
                else [])
           | _ \<Rightarrow> [issue ''FAIL'' ''frontmatter_tags'' [Lit ''Tags must be a list, got: '', TypeName tags]]))"

text \<open>
  The checks run one after the other and append to the same list; a check that raises
  ends the run with its exception.
\<close>

fun in_sequence :: "(exc + ValidationIssue list) list \<Rightarrow> exc + ValidationIssue list" where
  "in_sequence [] = Inr []"
| "in_sequence (Inl e # rest) = Inl e"
| "in_sequence (Inr xs # rest) =
     (case in_sequence rest of Inl e \<Rightarrow> Inl e | Inr ys \<Rightarrow> Inr (xs @ ys))"

text \<open>The checks on the parsed frontmatter (from \<open># Check required fields\<close> on).\<close>

definition check_fields :: "lib \<Rightarrow> (yaml \<times> yaml) list \<Rightarrow> exc + ValidationIssue list" where
  "check_fields L frontmatter =
     in_sequence
       [Inr (check_required frontmatter),
        check_enum frontmatter ''stack'' VALID_STACKS,
        check_enum frontmatter ''priority'' VALID_PRIORITIES,
        check_enum frontmatter ''audience'' VALID_AUDIENCES,
        check_enum frontmatter ''complexity'' VALID_COMPLEXITIES,
        Inr (check_confidence L frontmatter),
        Inr (check_date L frontmatter),
        Inr (check_tags frontmatter)]"

text \<open>
  \<open>_check_frontmatter(content, lines, issues)\<close>: the issues it appends, or the exception
  that leaves it.
\<close>

definition check_frontmatter :: "lib \<Rightarrow> str \<Rightarrow> str list \<Rightarrow> exc + ValidationIssue list" where
  "check_frontmatter L content lines =
     (if \<not> prefix (lit ''---'') content then
        Inr [(issue ''FAIL'' ''frontmatter_start''
               [Lit ''File must start with \"---\" (frontmatter delimiter)''])\<lparr>line_number := Some 1\<rparr>]
      else if lines \<noteq> [] \<and> prefix (lit ''# '') (hd lines) then
        Inr [(issue ''FAIL'' ''frontmatter_h1_before''
               [Lit ''File has H1 heading before frontmatter (remove the H1 line)''])\<lparr>line_number := Some 1\<rparr>]
      else
        (case find_str content (lit ''---'') 3 of
           None \<Rightarrow>
             Inr [issue ''FAIL'' ''frontmatter_end''
                    [Lit ''Frontmatter not properly closed (missing second \"---\")'']]
         | Some second_delim \<Rightarrow>
             (let frontmatter_text = strip (take (second_delim - 3) (drop 3 content)) in
              case safe_load L frontmatter_text of
                Inl (YAMLError e) \<Rightarrow>
                  Inr [issue ''FAIL'' ''frontmatter_parse'' [Lit ''Frontmatter YAML parse error: '', Str e]]
              | Inl other \<Rightarrow> Inl other
              | Inr (YDict frontmatter) \<Rightarrow> check_fields L frontmatter
              | Inr other \<Rightarrow>
                  Inr [issue ''FAIL'' ''frontmatter_parse''
                         [Lit ''Frontmatter did not parse to a dictionary'']])))"

text \<open>The call in \<open>validate_file\<close>, where \<open>lines = content.splitlines()\<close>.\<close>

definition validate_frontmatter :: "lib \<Rightarrow> str \<Rightarrow> exc + ValidationIssue list" where
  "validate_frontmatter L content = check_frontmatter L content (splitlines content)"

section \<open>validate.py: the section rule engine\<close>

text \<open>The fence of a code block: three backquotes (code point 96).\<close>

definition fence :: str where
  "fence = [96, 96, 96]"

lemma find_aux_bounds:
  "find_aux sub s i = Some q \<Longrightarrow> i \<le> q \<and> q + length sub \<le> i + length s"
proof (induction s arbitrary: i)
  case Nil
  then show ?case by (simp split: if_splits)
next
  case (Cons c cs)
  show ?case
  proof (cases "prefix sub (c # cs)")
    case True
    with Cons.prems have "q = i" by simp
    with True show ?thesis by (auto dest: prefix_length_le)
  next
    case False
    with Cons.prems have "find_aux sub cs (i + 1) = Some q" by simp
    from Cons.IH [OF this] show ?thesis by simp
  qed
qed

lemma find_str_bounds:
  "find_str s sub start = Some q \<Longrightarrow> start \<le> q \<and> q + length sub \<le> length s"
  by (auto simp: find_str_def split: if_splits dest!: find_aux_bounds)

text \<open>
  \<^verbatim>\<open>re.findall(r'```[\s\S]*?```', section)\<close>: from the left, a fence, the shortest text
  up to the next fence, and that fence; the search goes on after it.
\<close>

function findall_code_blocks :: "str \<Rightarrow> str list" where
  "findall_code_blocks s =
     (case find_str s fence 0 of
        None \<Rightarrow> []
      | Some p \<Rightarrow>
          (case find_str s fence (p + 3) of
             None \<Rightarrow> []
           | Some q \<Rightarrow> take (q + 3 - p) (drop p s) # findall_code_blocks (drop (q + 3) s)))"
  by pat_completeness auto
termination
proof (relation "measure length")
  show "wf (measure length)" by simp
next
  fix s :: str and p q
  assume "find_str s fence (p + 3) = Some q"
  from find_str_bounds [OF this] have "q + 3 \<le> length s" by (simp add: fence_def)
  then show "(drop (q + 3) s, s) \<in> measure length" by simp
qed

declare findall_code_blocks.simps [simp del]

text \<open>\<open>_check_code_blocks_in_section(section, section_title, issues)\<close>.\<close>

definition check_code_block :: "str \<Rightarrow> msg \<Rightarrow> str \<Rightarrow> ValidationIssue list" where
  "check_code_block section section_title code_block =
     (let lines_in_block = count_list code_block NL in
      if lines_in_block > CODE_BLOCK_LONG_THRESHOLD then
        (let before_code =
               strip (case find_str section code_block 0 of
                        Some code_block_pos \<Rightarrow> take code_block_pos section
                      | None \<Rightarrow> take (length section - 1) section);
             recent_text =
               (if length before_code > 200 then drop (length before_code - 200) before_code
                else before_code)
         in if find_str recent_text (lit ''\<newline>### '') 0 = None then
              [(issue ''WARN'' ''code_block_subsection''
                  [Lit ''Code block with '', Num lines_in_block,
                   Lit '' lines should have its own ### subsection''])
                 \<lparr>details := Some ([Lit ''In section: \"''] @ section_title @ [Lit ''\"''])\<rparr>]
            else [])
      else [])"

definition check_code_blocks_in_section :: "str \<Rightarrow> msg \<Rightarrow> ValidationIssue list" where
  "check_code_blocks_in_section section section_title =
     concat (map (check_code_block section section_title) (findall_code_blocks section))"

text \<open>
  \<^verbatim>\<open>pattern = r'(#{2,4}[^\n]+\n)\s*```'\<close> tried at the start of \<open>s\<close>: two to four hash
  marks and one character or more other than a newline, which together are the rest of
  the line (three characters at least, the first two of them hash marks), the newline,
  all the whitespace that follows, and a fence. The result is group 1 and the length
  of the match.
\<close>

definition bare_match :: "str \<Rightarrow> (str \<times> nat) option" where
  "bare_match s =
     (let line = takeWhile (\<lambda>c. c \<noteq> NL) s;
          rest = drop (length line) s
      in if prefix (lit ''##'') s \<and> 3 \<le> length line \<and> rest \<noteq> [] then
           (let ws = takeWhile isspace (tl rest) in
            if prefix fence (drop (length ws) (tl rest))
            then Some (line @ [NL], length line + 1 + length ws + 3)
            else None)
         else None)"

text \<open>\<open>re.finditer(pattern, content)\<close>: group 1 of every match, from the left.\<close>

function bare_matches :: "str \<Rightarrow> str list" where
  "bare_matches [] = []"
| "bare_matches (c # cs) =
     (case bare_match (c # cs) of
        Some (g, n) \<Rightarrow> g # bare_matches (drop n (c # cs))
      | None \<Rightarrow> bare_matches cs)"
  by pat_completeness auto
termination
  by (relation "measure length") (auto simp: bare_match_def Let_def split: if_splits)

definition check_bare_code_blocks :: "str \<Rightarrow> ValidationIssue list" where
  "check_bare_code_blocks content =
     map (\<lambda>g. (issue ''WARN'' ''bare_code_block''
                  [Lit ''Code block immediately follows heading without prose''])
                \<lparr>details := Some [Lit ''After: \"'', Str (strip g), Lit ''\"'']\<rparr>)
       (bare_matches content)"

text \<open>
  \<open>_check_heading_hierarchy(content, issues)\<close>: the loop over the lines, with
  \<open>prev_level\<close> and the number of the line.
\<close>

fun hierarchy_loop :: "nat \<Rightarrow> nat \<Rightarrow> str list \<Rightarrow> ValidationIssue list" where
  "hierarchy_loop prev_level line_num [] = []"
| "hierarchy_loop prev_level line_num (line # rest) =
     (if prefix [35] line then
        (let level = length (takeWhile (\<lambda>c. c = 35) line) in
         (if level > prev_level + 1 then
            [(issue ''WARN'' ''heading_hierarchy''
                [Lit ''Heading hierarchy skip detected: went from '', Str (replicate prev_level 35),
                 Lit '' to '', Str (replicate level 35)])
               \<lparr>line_number := Some line_num, details := Some [Str (strip line)]\<rparr>]
          else [])
         @ hierarchy_loop level (line_num + 1) rest)
      else hierarchy_loop prev_level (line_num + 1) rest)"

definition check_heading_hierarchy :: "str \<Rightarrow> ValidationIssue list" where
  "check_heading_hierarchy content = hierarchy_loop 1 1 (split [NL] content)"

text \<open>The body of the loop of \<open>_check_sections\<close>, for the \<open>i\<close>-th section.\<close>

definition check_section :: "nat \<Rightarrow> str \<Rightarrow> ValidationIssue list" where
  "check_section i section =
     (let section_content = lit ''## '' @ section;
          section_lines = split [NL] section_content;
          section_title =
            (if section_lines \<noteq> [] then [Str (hd section_lines)] else [Lit ''Section '', Num i]);
          section_length = length section_content;
          section_text = strip (join [NL] (tl section_lines))
      in (if section_length > MAX_SECTION_LENGTH then
            [(issue ''FAIL'' ''section_length''
                ([Lit ''Section \"''] @ section_title @
                 [Lit ''\" exceeds '', Num MAX_SECTION_LENGTH, Lit '' characters ('',
                  Num section_length, Lit '' chars)'']))
               \<lparr>details := Some section_title\<rparr>]
          else [])
         @ (if section_text \<noteq> [] then
              (let first_sentence = strip (hd (split [NL] section_text)) in
               if pronoun_match first_sentence then
                 [(issue ''FAIL'' ''section_pronoun''
                     ([Lit ''Section \"''] @ section_title @ [Lit ''\" starts with pronoun'']))
                    \<lparr>details := Some [Lit ''First sentence: \"'', Str (take 100 first_sentence),
                                      Lit ''...\"'']\<rparr>]
               else [])
            else [])
         @ check_code_blocks_in_section section_content section_title)"

text \<open>\<open>_check_sections(content, issues)\<close>.\<close>

definition check_sections :: "str \<Rightarrow> ValidationIssue list" where
  "check_sections content =
     (let sections = split (lit ''\<newline>## '') content in
      if length sections < 2 then
        [issue ''WARN'' ''sections_exist'' [Lit ''No ## sections found in document'']]
      else
        concat (map (\<lambda>(i, section). check_section i section) (enumerate 1 (tl sections)))
        @ check_bare_code_blocks content
        @ check_heading_hierarchy content)"

section \<open>section-analyzer.py\<close>

definition MAX_LENGTH :: nat where
  "MAX_LENGTH = 1500"

text \<open>
  \<open>analyze_file\<close> on the content of the file: the numbers \<open>violations\<close> and
  \<open>total_sections\<close> of its summary line.
\<close>

definition analyze_file :: "str \<Rightarrow> nat \<times> nat" where
  "analyze_file content =
     (let sections = split (lit ''\<newline>## '') content;
          section_contents = map (\<lambda>section. lit ''## '' @ section) (tl sections)
      in (length (filter (\<lambda>section_content. length section_content > MAX_LENGTH) section_contents),
          length section_contents))"

section \<open>Auxiliary notions for the proofs\<close>

text \<open>
  The loops of \<open>remove_empty_headings.py\<close> are characterised by a look-ahead on the
  rest of the line list: \<open>next_is_h2 rest\<close> holds when the first line of \<open>rest\<close> that
  is not blank exists and is a level-2 heading; \<open>empty_at lines k\<close> is the condition
  under which both loops select index \<open>k\<close>; \<open>clean\<close> drops the selected lines.
\<close>

definition blank :: "str \<Rightarrow> bool" where
  "blank l \<longleftrightarrow> strip l = []"

definition next_is_h2 :: "str list \<Rightarrow> bool" where
  "next_is_h2 rest = (case dropWhile blank rest of [] \<Rightarrow> False | l # _ \<Rightarrow> match_h2 l)"

definition empty_at :: "str list \<Rightarrow> nat \<Rightarrow> bool" where
  "empty_at lines k \<longleftrightarrow> k < length lines \<and> match_h2 (lines ! k) \<and> next_is_h2 (drop (Suc k) lines)"

fun clean :: "str list \<Rightarrow> str list" where
  "clean [] = []"
| "clean (l # rest) = (if match_h2 l \<and> next_is_h2 rest then clean rest else l # clean rest)"

text \<open>
  For the heading hierarchy: a heading line is a line that starts with a hash mark, its
  level is the number of hash marks it starts with, and \<open>headings\<close> are the heading
  lines of a content with their 1-based line numbers. \<open>skips_level\<close> compares a heading
  with the level before it, and \<open>hierarchy_warning\<close> is the issue emitted for it.
\<close>

definition is_heading :: "str \<Rightarrow> bool" where
  "is_heading line \<longleftrightarrow> prefix [35] line"

definition heading_level :: "str \<Rightarrow> nat" where
  "heading_level line = length (takeWhile (\<lambda>c. c = 35) line)"

definition headings_from :: "nat \<Rightarrow> str list \<Rightarrow> (nat \<times> str) list" where
  "headings_from n lines = filter (\<lambda>(k, line). is_heading line) (enumerate n lines)"

definition headings :: "str \<Rightarrow> (nat \<times> str) list" where
  "headings content = headings_from 1 (split [NL] content)"

definition heading_levels :: "str \<Rightarrow> nat list" where
  "heading_levels content = map (\<lambda>(k, line). heading_level line) (headings content)"

definition hierarchy_warning :: "(nat \<times> str) \<times> nat \<Rightarrow> ValidationIssue" where
  "hierarchy_warning = (\<lambda>((line_num, line), prev_level).
     \<lparr>level = ''WARN'', check = ''heading_hierarchy'',
      message = [Lit ''Heading hierarchy skip detected: went from '', Str (replicate prev_level 35),
                 Lit '' to '', Str (replicate (heading_level line) 35)],
      line_number = Some line_num, details = Some [Str (strip line)]\<rparr>)"

definition skips_level :: "(nat \<times> str) \<times> nat \<Rightarrow> bool" where
  "skips_level = (\<lambda>((line_num, line), prev_level). heading_level line > prev_level + 1)"

text \<open>
  \<open>section_contents\<close> are the values of \<open>section_content\<close> in the loop of
  \<open>_check_sections\<close> (and of \<open>analyze_file\<close>), in order: what the splitter takes as the
  sections of a content. \<open>length_issue\<close> is the issue of the length check for one of
  them.
\<close>

definition section_contents :: "str \<Rightarrow> str list" where
  "section_contents content = map (\<lambda>section. lit ''## '' @ section) (tl (split (lit ''\<newline>## '') content))"

definition is_length_issue :: "ValidationIssue \<Rightarrow> bool" where
  "is_length_issue x \<longleftrightarrow> check x = ''section_length''"

definition length_issue :: "str \<Rightarrow> ValidationIssue" where
  "length_issue section_content =
     \<lparr>level = ''FAIL'', check = ''section_length'',
      message = [Lit ''Section \"'', Str (hd (split [NL] section_content)), Lit ''\" exceeds '',
                 Num 1500, Lit '' characters ('', Num (length section_content), Lit '' chars)''],
      line_number = None, details = Some [Str (hd (split [NL] section_content))]\<rparr>"

text \<open>
  The Section of the specification: a new section begins at any line that starts with
  two hash marks and a space, and it ends at the start of the next such line or at the
  end of the input. \<open>spec_cut bol s\<close> cuts \<open>s\<close> before every \<open>## \<close> that is at the
  start of a line, where \<open>bol\<close> tells whether \<open>s\<close> itself starts a line; its pieces
  are the segment before the first level-2 heading (empty when the first line is one)
  and then the regions that the level-2 headings delimit. \<open>spec_sections\<close> are these
  regions, in order.

  \<open>terminated\<close> ends every string of a list but the last with a newline, and
  \<open>unterminated\<close> takes the last character from every string but the last; they
  relate the regions to what the splitter of the source takes as the sections.
\<close>

fun spec_cut :: "bool \<Rightarrow> str \<Rightarrow> str list" where
  "spec_cut bol [] = [[]]"
| "spec_cut bol (c # cs) =
     (let rest = spec_cut (c = NL) cs;
          pieces = (c # hd rest) # tl rest
      in if bol \<and> match_h2 (c # cs) then [] # pieces else pieces)"

definition spec_sections :: "str \<Rightarrow> str list" where
  "spec_sections content = tl (spec_cut True content)"

fun terminated :: "str list \<Rightarrow> str list" where
  "terminated [] = []"
| "terminated [x] = [x]"
| "terminated (x # y # ys) = (x @ [NL]) # terminated (y # ys)"

fun unterminated :: "str list \<Rightarrow> str list" where
  "unterminated [] = []"
| "unterminated [x] = [x]"
| "unterminated (x # y # ys) = butlast x # unterminated (y # ys)"

text \<open>
  For the pronoun check: the lines of a section after its heading line; the first of
  them that is not blank, which is the line the check looks at; the first of them that
  is not empty, which is the line the specification names; and the issue of the check.
\<close>

definition section_body_lines :: "str \<Rightarrow> str list" where
  "section_body_lines section = tl (split [NL] (lit ''## '' @ section))"

definition first_nonblank_line :: "str list \<Rightarrow> str option" where
  "first_nonblank_line ls = List.find (\<lambda>l. strip l \<noteq> []) ls"

definition spec_first_nonempty_line :: "str list \<Rightarrow> str option" where
  "spec_first_nonempty_line ls = List.find (\<lambda>l. l \<noteq> []) ls"

definition is_pronoun_issue :: "ValidationIssue \<Rightarrow> bool" where
  "is_pronoun_issue x \<longleftrightarrow> check x = ''section_pronoun''"

definition pronoun_issue :: "str \<Rightarrow> str \<Rightarrow> ValidationIssue" where
  "pronoun_issue section_title first_sentence =
     \<lparr>level = ''FAIL'', check = ''section_pronoun'',
      message = [Lit ''Section \"'', Str section_title, Lit ''\" starts with pronoun''],
      line_number = None,
      details = Some [Lit ''First sentence: \"'', Str (take 100 first_sentence), Lit ''...\"'']\<rparr>"

text \<open>
  The frontmatter block, as \<open>_check_frontmatter\<close> delimits it: from the start of a
  content that starts with \<open>---\<close> to the end of the next \<open>---\<close>, which
  \<open>content.find('---', 3)\<close> finds. \<open>frontmatter_end\<close> is the index where the block
  ends (0 when there is no block), and \<open>post_frontmatter\<close> is the content after it.
\<close>

definition frontmatter_end :: "str \<Rightarrow> nat" where
  "frontmatter_end content =
     (if prefix (lit ''---'') content then
        (case find_str content (lit ''---'') 3 of Some second_delim \<Rightarrow> second_delim + 3 | None \<Rightarrow> 0)
      else 0)"

definition post_frontmatter :: "str \<Rightarrow> str" where
  "post_frontmatter content = drop (frontmatter_end content) content"

text \<open>
  Issues of the frontmatter checker, and two parsed frontmatters without \<open>tags\<close>: one
  whose \<open>stack\<close> is a list, as \<open>yaml.safe_load\<close> returns it for the line
  \<open>stack: [invalid-value]\<close>, and one whose \<open>stack\<close> is the string of the line
  \<open>stack: invalid-value\<close>. The line \<open>last_updated: 2024-01-15\<close> gives a date.
\<close>

definition frontmatter_start_issue :: ValidationIssue where
  "frontmatter_start_issue =
     \<lparr>level = ''FAIL'', check = ''frontmatter_start'',
      message = [Lit ''File must start with \"---\" (frontmatter delimiter)''],
      line_number = Some 1, details = None\<rparr>"

definition unhashable_stack_frontmatter :: "(yaml \<times> yaml) list" where
  "unhashable_stack_frontmatter =
     [(YStr (lit ''title''), YStr (lit ''T'')),
      (YStr (lit ''category''), YStr (lit ''c'')),
      (YStr (lit ''subcategory''), YStr (lit ''s'')),
      (YStr (lit ''stack''), YList [YStr (lit ''invalid-value'')]),
      (YStr (lit ''priority''), YStr (lit ''high'')),
      (YStr (lit ''audience''), YStr (lit ''frontend'')),
      (YStr (lit ''complexity''), YStr (lit ''beginner'')),
      (YStr (lit ''doc_type''), YStr (lit ''standard'')),
      (YStr (lit ''source_confidence''), YStr (lit ''95%'')),
      (YStr (lit ''last_updated''), YOther (lit ''2024-01-15''))]"

definition string_stack_frontmatter :: "(yaml \<times> yaml) list" where
  "string_stack_frontmatter =
     [(YStr (lit ''title''), YStr (lit ''T'')),
      (YStr (lit ''category''), YStr (lit ''c'')),
      (YStr (lit ''subcategory''), YStr (lit ''s'')),
      (YStr (lit ''stack''), YStr (lit ''invalid-value'')),
      (YStr (lit ''priority''), YStr (lit ''high'')),
      (YStr (lit ''audience''), YStr (lit ''frontend'')),
      (YStr (lit ''complexity''), YStr (lit ''beginner'')),
      (YStr (lit ''doc_type''), YStr (lit ''standard'')),
      (YStr (lit ''source_confidence''), YStr (lit ''95%'')),
      (YStr (lit ''last_updated''), YOther (lit ''2024-01-15''))]"

definition required_fields_issue :: "string list \<Rightarrow> ValidationIssue" where
  "required_fields_issue missing_fields =
     \<lparr>level = ''FAIL'', check = ''frontmatter_required_fields'',
      message = [Lit ''Missing required frontmatter fields: '', Str (join (lit '', '') (map lit missing_fields))],
      line_number = None, details = None\<rparr>"

definition invalid_stack_issue :: "yaml \<Rightarrow> ValidationIssue" where
  "invalid_stack_issue v =
     \<lparr>level = ''FAIL'', check = ''frontmatter_stack'',
      message = [Lit ''Invalid stack value: \"'', Val v, Lit ''\". Must be one of: '',
                 JoinSet '', '' VALID_STACKS],
      line_number = None, details = None\<rparr>"

section \<open>Properties of the string functions\<close>

lemma strip_empty_iff: "strip s = [] \<longleftrightarrow> (\<forall>c \<in> set s. isspace c)"
proof
  assume "strip s = []"
  then have a: "\<forall>c \<in> set (dropWhile isspace s). isspace c"
    by (simp add: strip_def rstrip_def lstrip_def)
  have "dropWhile isspace s = []"
  proof (rule ccontr)
    assume n: "dropWhile isspace s \<noteq> []"
    then have "\<not> isspace (hd (dropWhile isspace s))" by (rule hd_dropWhile)
    moreover from n have "hd (dropWhile isspace s) \<in> set (dropWhile isspace s)" by simp
    ultimately show False using a by blast
  qed
  then show "\<forall>c \<in> set s. isspace c" by simp
next
  assume "\<forall>c \<in> set s. isspace c"
  then show "strip s = []"
    by (auto simp: strip_def rstrip_def lstrip_def dest: set_dropWhileD)
qed

lemma isspace_NL: "isspace NL"
  by (simp add: isspace_def)

lemma lstrip_append:
  "lstrip (a @ b) = (if strip a = [] then lstrip b else lstrip a @ b)"
proof (cases "strip a = []")
  case True
  then have "\<forall>c \<in> set a. isspace c" by (simp add: strip_empty_iff)
  then have "dropWhile isspace (a @ b) = dropWhile isspace b" by (simp add: dropWhile_append2)
  with True show ?thesis by (simp add: lstrip_def)
next
  case False
  then obtain c where "c \<in> set a" "\<not> isspace c" by (auto simp: strip_empty_iff)
  then have "dropWhile isspace (a @ b) = dropWhile isspace a @ b" by (rule dropWhile_append1)
  with False show ?thesis by (simp add: lstrip_def)
qed

lemma rstrip_append:
  "rstrip (a @ b) = (if strip b = [] then rstrip a else a @ rstrip b)"
proof (cases "strip b = []")
  case True
  then have sp: "\<And>c. c \<in> set (rev b) \<Longrightarrow> isspace c" by (simp add: strip_empty_iff)
  have "dropWhile isspace (rev b @ rev a) = dropWhile isspace (rev a)"
    by (rule dropWhile_append2) (rule sp)
  with True show ?thesis by (simp add: rstrip_def)
next
  case False
  then obtain c where "c \<in> set (rev b)" "\<not> isspace c" by (auto simp: strip_empty_iff)
  then have "dropWhile isspace (rev b @ rev a) = dropWhile isspace (rev b) @ rev a" by (rule dropWhile_append1)
  with False show ?thesis by (simp add: rstrip_def)
qed

lemma lstrip_id: "s \<noteq> [] \<Longrightarrow> \<not> isspace (hd s) \<Longrightarrow> lstrip s = s"
  by (cases s) (simp_all add: lstrip_def)

lemma rstrip_id: "s \<noteq> [] \<Longrightarrow> \<not> isspace (last s) \<Longrightarrow> rstrip s = s"
  by (cases s rule: rev_cases) (simp_all add: rstrip_def)

lemma lstrip_head: "lstrip s \<noteq> [] \<Longrightarrow> \<not> isspace (hd (lstrip s))"
  unfolding lstrip_def by (rule hd_dropWhile)

lemma rstrip_last: "rstrip s \<noteq> [] \<Longrightarrow> \<not> isspace (last (rstrip s))"
proof -
  assume "rstrip s \<noteq> []"
  then have n: "dropWhile isspace (rev s) \<noteq> []" by (simp add: rstrip_def)
  then have "\<not> isspace (hd (dropWhile isspace (rev s)))" by (rule hd_dropWhile)
  with n show ?thesis by (simp add: rstrip_def last_rev)
qed

lemma rstrip_prefix: "prefix (rstrip s) s"
proof -
  have "suffix (dropWhile isspace (rev s)) (rev s)" by (rule suffix_dropWhile)
  then obtain zs where "rev s = zs @ dropWhile isspace (rev s)" by (auto simp: suffix_def)
  then have "s = rev (dropWhile isspace (rev s)) @ rev zs" by (metis rev_append rev_rev_ident)
  then show ?thesis by (metis prefixI rstrip_def)
qed

lemma strip_ends:
  assumes "strip s \<noteq> []"
  shows "\<not> isspace (hd (strip s)) \<and> \<not> isspace (last (strip s))"
proof -
  from assms have l: "lstrip s \<noteq> []" by (auto simp: strip_def rstrip_def)
  from assms have "\<not> isspace (last (strip s))" unfolding strip_def by (rule rstrip_last)
  moreover have "hd (strip s) = hd (lstrip s)"
    using rstrip_prefix [of "lstrip s"] assms
    by (metis append_Nil hd_append2 prefix_def strip_def)
  ultimately show ?thesis using lstrip_head [OF l] by simp
qed

lemma strip_id: "s \<noteq> [] \<Longrightarrow> \<not> isspace (hd s) \<Longrightarrow> \<not> isspace (last s) \<Longrightarrow> strip s = s"
  by (simp add: strip_def lstrip_id rstrip_id)

lemma strip_strip: "strip (strip s) = strip s"
proof (cases "strip s = []")
  case True
  have "strip [] = []" by (simp add: strip_def lstrip_def rstrip_def)
  with True show ?thesis by simp
next
  case False
  with strip_ends [OF False] show ?thesis by (intro strip_id) auto
qed

lemma strip_lstrip: "strip (lstrip s) = strip s"
  by (simp add: strip_def lstrip_def)

lemma set_lstrip: "set (lstrip s) \<subseteq> set s"
  by (auto simp: lstrip_def dest: set_dropWhileD)

lemma set_strip: "set (strip s) \<subseteq> set s"
  using rstrip_prefix [of "lstrip s"] set_lstrip [of s]
  by (auto simp: strip_def dest: set_mono_prefix)

lemma strip_keeps_text:
  assumes "t \<noteq> []" "\<not> isspace (hd t)" "\<not> isspace (last t)"
  shows "\<exists>z. strip (t @ r) = t @ z"
proof -
  from assms have "strip t \<noteq> []" by (simp add: strip_id)
  then have l: "lstrip (t @ r) = t @ r" using assms by (simp add: lstrip_append lstrip_id)
  have "rstrip (t @ r) = (if strip r = [] then t else t @ rstrip r)"
    using assms by (simp add: rstrip_append rstrip_id)
  with l show ?thesis by (simp add: strip_def)
qed

lemma split_not_Nil: "split sep s \<noteq> []"
  by (induction sep s rule: split.induct) (auto split: list.splits)

lemma join_Cons: "ys \<noteq> [] \<Longrightarrow> join sep (x # ys) = x @ sep @ join sep ys"
  by (cases ys) simp_all

lemma join_split: "join sep (split sep s) = s"
proof (induction sep s rule: split.induct)
  case (1 sep)
  show ?case by simp
next
  case (2 sep c cs)
  show ?case
  proof (cases "sep \<noteq> [] \<and> prefix sep (c # cs)")
    case True
    then have "c # cs = sep @ drop (length sep) (c # cs)"
      by (metis append_eq_conv_conj prefix_def)
    with 2(1) [OF True] True show ?thesis
      by (simp add: join_Cons split_not_Nil)
  next
    case False
    obtain p ps where sp: "split sep cs = p # ps"
      using split_not_Nil [of sep cs] by (cases "split sep cs") auto
    with 2(2) [OF False] have "join sep (p # ps) = cs" by simp
    then have "join sep ((c # p) # ps) = c # cs" by (cases ps) auto
    with False sp show ?thesis by auto
  qed
qed

lemma join_append:
  "ys \<noteq> [] \<Longrightarrow> join sep (xs @ ys) = (if xs = [] then join sep ys else join sep xs @ sep @ join sep ys)"
proof (induction xs)
  case Nil
  show ?case by simp
next
  case (Cons x xs)
  then show ?case by (cases xs) (simp_all add: join_Cons)
qed

lemma join_as_concat: "join sep (x # xs) = x @ concat (map (\<lambda>p. sep @ p) xs)"
  by (induction xs arbitrary: x) (simp_all add: join_Cons)

lemma split1_no_sep: "c \<notin> set x \<Longrightarrow> split [c] x = [x]"
  by (induction x) auto

lemma split1_append: "c \<notin> set x \<Longrightarrow> split [c] (x @ c # rest) = x # split [c] rest"
  by (induction x) auto

lemma split1_pieces: "l \<in> set (split [c] s) \<Longrightarrow> c \<notin> set l"
proof (induction "[c]" s arbitrary: l rule: split.induct)
  case 1
  then show ?case by simp
next
  case (2 d cs)
  show ?case
  proof (cases "d = c")
    case True
    with 2(1) 2(3) show ?thesis by auto
  next
    case False
    obtain p ps where sp: "split [c] cs = p # ps"
      using split_not_Nil [of "[c]" cs] by (cases "split [c] cs") auto
    with 2(2) False have "\<And>l. l \<in> set (p # ps) \<Longrightarrow> c \<notin> set l" by simp
    with False sp 2(3) show ?thesis by auto
  qed
qed

lemma split1_join:
  "ls \<noteq> [] \<Longrightarrow> \<forall>l \<in> set ls. c \<notin> set l \<Longrightarrow> split [c] (join [c] ls) = ls"
proof (induction ls)
  case Nil
  then show ?case by simp
next
  case (Cons x ls)
  show ?case
  proof (cases ls)
    case Nil
    with Cons.prems show ?thesis by (simp add: split1_no_sep)
  next
    case (Cons y ys)
    with Cons.IH Cons.prems have "split [c] (join [c] ls) = ls" by simp
    with Cons Cons.prems show ?thesis by (simp add: split1_append)
  qed
qed

lemma hd_split1: "c \<notin> set a \<Longrightarrow> hd (split [c] (a @ c # u)) = a"
  by (simp add: split1_append)

lemma hd_split_takeWhile: "hd (split [c] s) = takeWhile (\<lambda>x. x \<noteq> c) s"
proof (induction s)
  case Nil
  show ?case by simp
next
  case (Cons d s)
  then show ?case by (cases "split [c] s") (auto simp: split_not_Nil)
qed

lemma split_no_first:
  "sep \<noteq> [] \<Longrightarrow> hd sep \<notin> set a \<Longrightarrow> split sep a = [a]"
proof (induction a)
  case Nil
  show ?case by simp
next
  case (Cons c a)
  then have "\<not> prefix sep (c # a)" by (cases sep) auto
  with Cons show ?case by simp
qed

lemma split_append_sep:
  "sep \<noteq> [] \<Longrightarrow> hd sep \<notin> set a \<Longrightarrow> split sep (a @ sep @ b) = a # split sep b"
proof (induction a)
  case Nil
  then obtain c cs where s: "sep @ b = c # cs" by (cases sep) auto
  have "split sep (c # cs) = [] # split sep (drop (length sep) (c # cs))"
    using Nil s by (metis prefixI split.simps(2))
  then show ?case using s by (metis append_Nil append_eq_conv_conj)
next
  case (Cons c a)
  then have "\<not> prefix sep (c # a @ sep @ b)" by (cases sep) auto
  with Cons show ?case by simp
qed

lemma split_Cons_other:
  "\<not> (sep \<noteq> [] \<and> prefix sep (c # cs)) \<Longrightarrow>
     split sep (c # cs) = (c # hd (split sep cs)) # tl (split sep cs)"
  using split_not_Nil [of sep cs] by (auto split: list.splits)

lemma hd_split_prefix: "prefix (hd (split sep s)) s"
proof -
  obtain p ps where sp: "split sep s = p # ps"
    using split_not_Nil [of sep s] by (cases "split sep s") auto
  have "s = join sep (p # ps)" using join_split [of sep s] sp by simp
  then have "s = p @ concat (map (\<lambda>q. sep @ q) ps)" by (simp add: join_as_concat)
  with sp show ?thesis by (metis list.sel(1) prefixI)
qed

lemma split_pieces_no_sep:
  "sep \<noteq> [] \<Longrightarrow> p \<in> set (split sep s) \<Longrightarrow> \<not> sublist sep p"
proof (induction sep s arbitrary: p rule: split.induct)
  case (1 sep)
  then show ?case by simp
next
  case (2 sep c cs)
  show ?case
  proof (cases "sep \<noteq> [] \<and> prefix sep (c # cs)")
    case True
    with 2(1) [OF True] 2(3) 2(4) show ?thesis by auto
  next
    case False
    obtain q qs where sp: "split sep cs = q # qs"
      using split_not_Nil [of sep cs] by (cases "split sep cs") auto
    from False 2(3) have np: "\<not> prefix sep (c # cs)" by simp
    have "prefix q cs" using hd_split_prefix [of sep cs] sp by simp
    then have "prefix (c # q) (c # cs)" by simp
    with np have a: "\<not> prefix sep (c # q)" using prefix_order.trans by blast
    have b: "\<not> sublist sep q" using 2(2) [OF False 2(3)] sp by simp
    from a b have "\<not> sublist sep (c # q)" by (simp add: sublist_Cons_right)
    moreover have "\<And>r. r \<in> set qs \<Longrightarrow> \<not> sublist sep r" using 2(2) [OF False 2(3)] sp by simp
    ultimately show ?thesis using 2(4) False sp by auto
  qed
qed

lemma lit_inj: "lit a = lit b \<longleftrightarrow> a = b"
proof -
  have "inj (of_char :: char \<Rightarrow> nat)" by (rule inj_of_char)
  then have "inj (map (of_char :: char \<Rightarrow> nat))" by (simp add: inj_mapI)
  then show ?thesis unfolding lit_def by (auto dest: injD)
qed

section \<open>Properties of remove\_empty\_headings.py\<close>

lemma skip_blank_eq:
  "j \<le> length lines \<Longrightarrow> skip_blank lines j = j + length (takeWhile blank (drop j lines))"
proof (induction lines j rule: skip_blank.induct)
  case (1 lines j)
  show ?case
  proof (cases "j < length lines \<and> strip (lines ! j) = []")
    case True
    then have d: "drop j lines = lines ! j # drop (Suc j) lines"
      by (simp add: Cons_nth_drop_Suc)
    from True 1 have "skip_blank lines (j + 1) = j + 1 + length (takeWhile blank (drop (j + 1) lines))"
      by simp
    with True d show ?thesis
      by (subst skip_blank.simps) (simp add: blank_def)
  next
    case False
    show ?thesis
    proof (cases "j < length lines")
      case True
      with False have nb: "\<not> blank (lines ! j)" by (simp add: blank_def)
      from True have d: "drop j lines = lines ! j # drop (Suc j) lines"
        by (simp add: Cons_nth_drop_Suc)
      from True False nb d show ?thesis by (subst skip_blank.simps) simp
    next
      case False
      with 1 show ?thesis by (subst skip_blank.simps) simp
    qed
  qed
qed

lemma lookahead_eq:
  assumes "j \<le> length lines"
  shows "(skip_blank lines j < length lines \<and> match_h2 (lines ! skip_blank lines j)) = next_is_h2 (drop j lines)"
proof -
  let ?t = "takeWhile blank (drop j lines)"
  let ?d = "dropWhile blank (drop j lines)"
  have s: "skip_blank lines j = j + length ?t" using assms by (rule skip_blank_eq)
  have len: "length ?t + length ?d = length lines - j"
    by (metis length_append length_drop takeWhile_dropWhile_id)
  show ?thesis
  proof (cases ?d)
    case Nil
    with len have "length ?t = length lines - j" by simp
    with s assms show ?thesis unfolding next_is_h2_def Nil by simp
  next
    case (Cons l ls)
    with len assms have lt: "j + length ?t < length lines" by simp
    have "drop (length ?t) (drop j lines) = ?d"
      by (metis append_eq_conv_conj takeWhile_dropWhile_id)
    then have "drop (j + length ?t) lines = l # ls" using Cons by (simp add: add.commute)
    then have "lines ! (j + length ?t) = l"
      using lt by (metis Cons_nth_drop_Suc list.inject)
    with s lt Cons show ?thesis by (simp add: next_is_h2_def)
  qed
qed

lemma remove_loop_eq:
  "remove_loop lines i S = S \<union> {k. i \<le> k \<and> empty_at lines k}"
proof (induction lines i S rule: remove_loop.induct)
  case (1 lines i S)
  show ?case
  proof (cases "i < length lines")
    case False
    then show ?thesis by (subst remove_loop.simps) (auto simp: empty_at_def)
  next
    case True
    then have la: "(skip_blank lines (i + 1) < length lines \<and> match_h2 (lines ! skip_blank lines (i + 1)))
        = next_is_h2 (drop (Suc i) lines)"
      using lookahead_eq [of "i + 1" lines] by simp
    have split_set: "{k. i \<le> k \<and> empty_at lines k} = (if empty_at lines i then {i} else {}) \<union> {k. i + 1 \<le> k \<and> empty_at lines k}"
      by (auto simp: le_less Suc_le_eq)
    show ?thesis
    proof (cases "empty_at lines i")
      case e: True
      with True la have c: "match_h2 (lines ! i)" "skip_blank lines (i + 1) < length lines \<and> match_h2 (lines ! skip_blank lines (i + 1))"
        by (simp_all add: empty_at_def)
      with 1(1) [OF True refl c(1) refl c(2)] have "remove_loop lines (i + 1) (insert i S) = insert i S \<union> {k. i + 1 \<le> k \<and> empty_at lines k}"
        by simp
      with True c e split_set show ?thesis
        by (subst remove_loop.simps) (simp add: Let_def)
    next
      case e: False
      show ?thesis
      proof (cases "match_h2 (lines ! i)")
        case m: True
        with e True la have c: "\<not> (skip_blank lines (i + 1) < length lines \<and> match_h2 (lines ! skip_blank lines (i + 1)))"
          by (simp add: empty_at_def)
        with 1(2) [OF True refl m refl c] have "remove_loop lines (i + 1) S = S \<union> {k. i + 1 \<le> k \<and> empty_at lines k}"
          by simp
        with True m c e split_set show ?thesis
          by (subst remove_loop.simps) (auto simp: Let_def)
      next
        case m: False
        with 1(3) [OF True refl m] have "remove_loop lines (i + 1) S = S \<union> {k. i + 1 \<le> k \<and> empty_at lines k}"
          by simp
        with True m e split_set show ?thesis
          by (subst remove_loop.simps) (simp add: Let_def)
      qed
    qed
  qed
qed

lemma find_loop_eq:
  "find_loop lines i acc = acc @ map (\<lambda>k. (k + 1, lines ! k)) (filter (empty_at lines) [i..<length lines])"
proof (induction lines i acc rule: find_loop.induct)
  case (1 lines i acc)
  show ?case
  proof (cases "i < length lines")
    case False
    then show ?thesis by (subst find_loop.simps) simp
  next
    case True
    then have la: "(skip_blank lines (i + 1) < length lines \<and> match_h2 (lines ! skip_blank lines (i + 1)))
        = next_is_h2 (drop (Suc i) lines)"
      using lookahead_eq [of "i + 1" lines] by simp
    from True have u: "[i..<length lines] = i # [i + 1..<length lines]"
      by (simp add: upt_conv_Cons)
    show ?thesis
    proof (cases "match_h2 (lines ! i)")
      case m: False
      then have e: "\<not> empty_at lines i" by (simp add: empty_at_def)
      from 1(3) [OF True refl m] True m e u show ?thesis
        by (subst find_loop.simps) (simp add: Let_def)
    next
      case m: True
      show ?thesis
      proof (cases "next_is_h2 (drop (Suc i) lines)")
        case n: True
        with la have c: "skip_blank lines (i + 1) < length lines \<and> match_h2 (lines ! skip_blank lines (i + 1))"
          by simp
        from n m True have e: "empty_at lines i" by (simp add: empty_at_def)
        from 1(1) [OF True refl m refl c] True m c e u show ?thesis
          by (subst find_loop.simps) (simp add: Let_def)
      next
        case n: False
        with la have c: "\<not> (skip_blank lines (i + 1) < length lines \<and> match_h2 (lines ! skip_blank lines (i + 1)))"
          by simp
        from n have e: "\<not> empty_at lines i" by (simp add: empty_at_def)
        from 1(2) [OF True refl m refl c] True m c e u show ?thesis
          by (subst find_loop.simps) (auto simp: Let_def)
      qed
    qed
  qed
qed

lemma next_is_h2_Cons:
  "next_is_h2 (l # rest) = (if blank l then next_is_h2 rest else match_h2 l)"
  by (simp add: next_is_h2_def)

lemma match_h2_not_blank: "match_h2 l \<Longrightarrow> \<not> blank l"
  by (auto simp: match_h2_def blank_def strip_empty_iff lit_def prefix_def isspace_def)

lemma next_is_h2_clean: "next_is_h2 (clean rest) = next_is_h2 rest"
proof (induction rest)
  case Nil
  show ?case by simp
next
  case (Cons l rest)
  show ?case
  proof (cases "match_h2 l \<and> next_is_h2 rest")
    case True
    then have "\<not> blank l" by (simp add: match_h2_not_blank)
    with True Cons show ?thesis by (simp add: next_is_h2_Cons)
  next
    case False
    with Cons show ?thesis by (simp add: next_is_h2_Cons)
  qed
qed

lemma clean_idem: "clean (clean ls) = clean ls"
  by (induction ls) (simp_all add: next_is_h2_clean)

lemma empty_at_Cons:
  "empty_at (l # rest) k = (case k of 0 \<Rightarrow> match_h2 l \<and> next_is_h2 rest | Suc k' \<Rightarrow> empty_at rest k')"
  by (cases k) (simp_all add: empty_at_def)

lemma clean_no_empty: "\<not> empty_at (clean ls) k"
proof (induction ls arbitrary: k)
  case Nil
  show ?case by (simp add: empty_at_def)
next
  case (Cons l rest)
  then show ?case
    by (cases k) (simp_all add: empty_at_Cons next_is_h2_clean)
qed

lemma new_lines_clean_gen:
  "map snd (filter (\<lambda>(i, line). \<not> empty_at (pre @ ls) i) (enumerate (length pre) ls)) = clean ls"
proof (induction ls arbitrary: pre)
  case Nil
  show ?case by simp
next
  case (Cons l rest)
  have e: "empty_at (pre @ l # rest) (length pre) = (match_h2 l \<and> next_is_h2 rest)"
    by (simp add: empty_at_def)
  from Cons [of "pre @ [l]"] have
    "map snd (filter (\<lambda>(i, line). \<not> empty_at (pre @ l # rest) i) (enumerate (Suc (length pre)) rest)) = clean rest"
    by simp
  with e show ?case by simp
qed

lemma remove_loop_0: "remove_loop lines 0 {} = {k. empty_at lines k}"
  by (simp add: remove_loop_eq)

lemma new_lines_clean: "new_lines lines {k. empty_at lines k} = clean lines"
  using new_lines_clean_gen [of "[]" lines]
  by (simp add: new_lines_def)

lemma clean_not_Nil: "ls \<noteq> [] \<Longrightarrow> clean ls \<noteq> []"
proof (induction ls)
  case Nil
  then show ?case by simp
next
  case (Cons l rest)
  show ?case
  proof (cases "match_h2 l \<and> next_is_h2 rest")
    case True
    then have "rest \<noteq> []" by (auto simp: next_is_h2_def)
    with True Cons show ?thesis by simp
  next
    case False
    then show ?thesis by auto
  qed
qed

lemma set_clean: "set (clean ls) \<subseteq> set ls"
  by (induction ls) auto

lemma remove_empty_headings_eq:
  "remove_empty_headings content =
     (join [NL] (clean (split [NL] content)), card {k. empty_at (split [NL] content) k})"
  by (simp add: remove_empty_headings_def lines_to_remove_def Let_def new_lines_clean remove_loop_0)

lemma split_cleaned:
  "split [NL] (join [NL] (clean (split [NL] content))) = clean (split [NL] content)"
proof (rule split1_join)
  show "clean (split [NL] content) \<noteq> []"
    by (rule clean_not_Nil) (rule split_not_Nil)
  show "\<forall>l \<in> set (clean (split [NL] content)). NL \<notin> set l"
    using set_clean [of "split [NL] content"] split1_pieces [of _ NL content] by blast
qed

lemma lines_to_remove_eq: "lines_to_remove content = {k. empty_at (split [NL] content) k}"
  by (simp add: lines_to_remove_def remove_loop_0)

lemma find_empty_headings_eq:
  "find_empty_headings content =
     map (\<lambda>k. (k + 1, split [NL] content ! k))
       (filter (empty_at (split [NL] content)) [0..<length (split [NL] content)])"
  by (simp add: find_empty_headings_def find_loop_eq)

lemma sorted_list_empty_at:
  "sorted_list_of_set {k. empty_at lines k} = filter (empty_at lines) [0..<length lines]"
proof (rule sorted_distinct_set_unique)
  have fin: "finite {k. empty_at lines k}"
    by (rule finite_subset [of _ "{..<length lines}"]) (auto simp: empty_at_def)
  show "sorted (sorted_list_of_set {k. empty_at lines k})" by simp
  show "distinct (sorted_list_of_set {k. empty_at lines k})" by simp
  show "sorted (filter (empty_at lines) [0..<length lines])"
    using sorted_filter [of "\<lambda>x. x" "[0..<length lines]" "empty_at lines"] by simp
  show "distinct (filter (empty_at lines) [0..<length lines])" by simp
  show "set (sorted_list_of_set {k. empty_at lines k}) = set (filter (empty_at lines) [0..<length lines])"
    using fin by (auto simp: empty_at_def)
qed

lemma card_empty_at:
  "card {k. empty_at lines k} = length (filter (empty_at lines) [0..<length lines])"
proof -
  have "{k. empty_at lines k} = set (filter (empty_at lines) [0..<length lines])"
    by (auto simp: empty_at_def)
  then have "card {k. empty_at lines k} = card (set (filter (empty_at lines) [0..<length lines]))"
    by (simp only:)
  also have "\<dots> = length (filter (empty_at lines) [0..<length lines])"
    by (rule distinct_card) simp
  finally show ?thesis .
qed

lemma empty_at_later_h2:
  assumes "empty_at lines i"
  shows "\<exists>j. i < j \<and> j < length lines \<and> match_h2 (lines ! j)"
proof -
  from assms have i: "i < length lines" and n: "next_is_h2 (drop (Suc i) lines)"
    by (simp_all add: empty_at_def)
  from i have le: "i + 1 \<le> length lines" by simp
  from n lookahead_eq [OF le] have "skip_blank lines (i + 1) < length lines \<and> match_h2 (lines ! skip_blank lines (i + 1))"
    by simp
  moreover from skip_blank_eq [OF le] have "i < skip_blank lines (i + 1)" by simp
  ultimately show ?thesis by blast
qed

lemma next_is_h2_then_h2:
  "next_is_h2 rest \<Longrightarrow> \<exists>l \<in> set rest. match_h2 l"
  by (induction rest) (auto simp: next_is_h2_Cons next_is_h2_def split: if_splits)

lemma next_is_h2_content:
  assumes "k < length rest" "\<not> blank (rest ! k)" "\<not> match_h2 (rest ! k)"
    and "\<forall>m < k. \<not> match_h2 (rest ! m)"
  shows "\<not> next_is_h2 rest"
  using assms
proof (induction rest arbitrary: k)
  case Nil
  then show ?case by simp
next
  case (Cons l rest)
  show ?case
  proof (cases k)
    case 0
    with Cons.prems show ?thesis by (simp add: next_is_h2_Cons)
  next
    case (Suc k')
    with Cons.prems have "\<not> match_h2 l" by auto
    moreover from Suc Cons.prems have "\<not> next_is_h2 rest"
      by (intro Cons.IH [of k']) auto
    ultimately show ?thesis by (simp add: next_is_h2_Cons)
  qed
qed

lemma content_keeps_heading:
  assumes "i < k" "k < length lines" "\<not> match_h2 (lines ! k)" "strip (lines ! k) \<noteq> []"
    and "\<forall>m. i < m \<and> m < k \<longrightarrow> \<not> match_h2 (lines ! m)"
  shows "\<not> empty_at lines i"
proof -
  have "\<not> next_is_h2 (drop (Suc i) lines)"
  proof (rule next_is_h2_content [of "k - Suc i"])
    show "k - Suc i < length (drop (Suc i) lines)" using assms by simp
    show "\<not> blank (drop (Suc i) lines ! (k - Suc i))" using assms by (simp add: blank_def)
    show "\<not> match_h2 (drop (Suc i) lines ! (k - Suc i))" using assms by simp
    show "\<forall>m<k - Suc i. \<not> match_h2 (drop (Suc i) lines ! m)" using assms by simp
  qed
  then show ?thesis by (simp add: empty_at_def)
qed

lemma enumerate_filter_nths:
  "map snd (filter (\<lambda>(i, line). i \<in> A) (enumerate n xs)) = nths xs {j. j + n \<in> A}"
proof (induction xs arbitrary: n)
  case Nil
  show ?case by simp
next
  case (Cons x xs)
  from Cons [of "Suc n"] show ?case by (simp add: nths_Cons)
qed

lemma new_lines_nths: "new_lines lines rem = nths lines {i. i \<notin> rem}"
  using enumerate_filter_nths [of "- rem" 0 lines] by (simp add: new_lines_def)

lemma removed_text_nths:
  "fst (remove_empty_headings content)
     = join [NL] (nths (split [NL] content) {i. i \<notin> lines_to_remove content})"
  by (simp add: remove_empty_headings_def Let_def new_lines_nths)

lemma removed_lines_nths:
  "split [NL] (fst (remove_empty_headings content))
     = nths (split [NL] content) {i. i \<notin> lines_to_remove content}"
  using split_cleaned [of content]
  by (simp add: remove_empty_headings_eq new_lines_clean [symmetric] new_lines_nths lines_to_remove_eq)

lemma nths_kept_position:
  assumes "i < length xs" "i \<in> A"
  shows "card {j. j < i \<and> j \<in> A} < length (nths xs A)
         \<and> nths xs A ! card {j. j < i \<and> j \<in> A} = xs ! i"
proof -
  have d: "drop i xs = xs ! i # drop (Suc i) xs" using assms(1) by (simp add: Cons_nth_drop_Suc)
  have "nths xs A = nths (take i xs) A @ nths (drop i xs) {j. j + length (take i xs) \<in> A}"
    using nths_append [of "take i xs" "drop i xs" A] by simp
  moreover have "length (take i xs) = i" using assms(1) by simp
  moreover have "nths (drop i xs) {j. j + i \<in> A} = xs ! i # nths (drop (Suc i) xs) {j. Suc j + i \<in> A}"
    using assms(2) by (subst d) (simp add: nths_Cons)
  moreover have "length (nths (take i xs) A) = card {j. j < i \<and> j \<in> A}"
    using assms(1) by (simp add: length_nths min_def)
  ultimately show ?thesis by (simp add: nth_append)
qed

text \<open>
  Claim C8. The heading clean-up is idempotent: for every content, applying
  \<open>remove_empty_headings\<close> to its own output returns the same text and the removal
  count 0. The text it returns consists of the lines of the content whose index is not
  in \<open>lines_to_remove\<close>, in order and joined by newlines. And it never removes a
  level-2 heading that is followed, before the next level-2 heading, by a line that is
  neither blank nor a level-2 heading (which covers every line that is not a heading at
  all): when line \<open>k\<close> after line \<open>i\<close> is such a line and no line between them is a
  level-2 heading, index \<open>i\<close> is not in \<open>lines_to_remove\<close>, and line \<open>i\<close> is a line
  of the returned text, at the position that is the number of lines kept before it.
\<close>

theorem remove_empty_headings_idempotent:
  "remove_empty_headings (fst (remove_empty_headings content)) = (fst (remove_empty_headings content), 0)
   \<and> fst (remove_empty_headings content)
       = join [NL] (nths (split [NL] content) {i. i \<notin> lines_to_remove content})
   \<and> split [NL] (fst (remove_empty_headings content))
       = nths (split [NL] content) {i. i \<notin> lines_to_remove content}
   \<and> (\<forall>i k. i < k \<and> k < length (split [NL] content)
         \<and> \<not> match_h2 (split [NL] content ! k) \<and> strip (split [NL] content ! k) \<noteq> []
         \<and> (\<forall>m. i < m \<and> m < k \<longrightarrow> \<not> match_h2 (split [NL] content ! m))
       \<longrightarrow> i \<notin> lines_to_remove content
           \<and> card {j. j < i \<and> j \<notin> lines_to_remove content}
               < length (split [NL] (fst (remove_empty_headings content)))
           \<and> split [NL] (fst (remove_empty_headings content))
               ! card {j. j < i \<and> j \<notin> lines_to_remove content}
             = split [NL] content ! i)"
proof (intro conjI allI impI)
  show "remove_empty_headings (fst (remove_empty_headings content)) = (fst (remove_empty_headings content), 0)"
    by (simp add: remove_empty_headings_eq split_cleaned clean_idem clean_no_empty)
next
  show "fst (remove_empty_headings content)
       = join [NL] (nths (split [NL] content) {i. i \<notin> lines_to_remove content})"
    by (rule removed_text_nths)
next
  show "split [NL] (fst (remove_empty_headings content))
       = nths (split [NL] content) {i. i \<notin> lines_to_remove content}"
    by (rule removed_lines_nths)
next
  fix i k
  assume a: "i < k \<and> k < length (split [NL] content)
         \<and> \<not> match_h2 (split [NL] content ! k) \<and> strip (split [NL] content ! k) \<noteq> []
         \<and> (\<forall>m. i < m \<and> m < k \<longrightarrow> \<not> match_h2 (split [NL] content ! m))"
  then have "\<not> empty_at (split [NL] content) i"
    by (intro content_keeps_heading [of i k]) auto
  then have kept: "i \<in> {i. i \<notin> lines_to_remove content}" by (simp add: lines_to_remove_eq)
  from a have len: "i < length (split [NL] content)" by simp
  from kept show "i \<notin> lines_to_remove content" by simp
  from nths_kept_position [OF len kept]
  show "card {j. j < i \<and> j \<notin> lines_to_remove content}
               < length (split [NL] (fst (remove_empty_headings content)))"
    by (simp add: removed_lines_nths)
  from nths_kept_position [OF len kept]
  show "split [NL] (fst (remove_empty_headings content))
               ! card {j. j < i \<and> j \<notin> lines_to_remove content}
             = split [NL] content ! i"
    by (simp add: removed_lines_nths)
qed

theorem remove_empty_headings_idempotent_witness:
  "remove_empty_headings (lit ''## A\<newline>\<newline>## B\<newline>### sub\<newline>text\<newline>## C\<newline>'')
     = (lit ''\<newline>## B\<newline>### sub\<newline>text\<newline>## C\<newline>'', 1)
   \<and> remove_empty_headings (lit ''\<newline>## B\<newline>### sub\<newline>text\<newline>## C\<newline>'')
     = (lit ''\<newline>## B\<newline>### sub\<newline>text\<newline>## C\<newline>'', 0)
   \<and> 2 \<notin> lines_to_remove (lit ''## A\<newline>\<newline>## B\<newline>### sub\<newline>text\<newline>## C\<newline>'')
   \<and> split [NL] (fst (remove_empty_headings (lit ''## A\<newline>\<newline>## B\<newline>### sub\<newline>text\<newline>## C\<newline>''))) ! 1
     = lit ''## B''"
proof -
  let ?c = "lit ''## A\<newline>\<newline>## B\<newline>### sub\<newline>text\<newline>## C\<newline>''"
  have r: "remove_empty_headings ?c = (lit ''\<newline>## B\<newline>### sub\<newline>text\<newline>## C\<newline>'', 1)"
    by code_simp
  have l: "split [NL] ?c = [lit ''## A'', [], lit ''## B'', lit ''### sub'', lit ''text'', lit ''## C'', []]"
    by code_simp
  have rm: "lines_to_remove ?c = {0}" by code_simp
  have m3: "\<not> match_h2 (lit ''### sub'')" by code_simp
  have m4: "\<not> match_h2 (lit ''text'')" "strip (lit ''text'') \<noteq> []" by code_simp+
  have between: "\<forall>m. (2::nat) < m \<and> m < 4 \<longrightarrow> \<not> match_h2 (split [NL] ?c ! m)"
  proof (intro allI impI)
    fix m :: nat assume "2 < m \<and> m < 4"
    then have "m = 3" by arith
    with l m3 show "\<not> match_h2 (split [NL] ?c ! m)" by simp
  qed
  have h: "(2::nat) < 4 \<and> 4 < length (split [NL] ?c)
         \<and> \<not> match_h2 (split [NL] ?c ! 4) \<and> strip (split [NL] ?c ! 4) \<noteq> []
         \<and> (\<forall>m. 2 < m \<and> m < 4 \<longrightarrow> \<not> match_h2 (split [NL] ?c ! m))"
    using between m4 by (simp add: l)
  from remove_empty_headings_idempotent [of ?c] h
  have k: "2 \<notin> lines_to_remove ?c
      \<and> split [NL] (fst (remove_empty_headings ?c)) ! card {j. j < 2 \<and> j \<notin> lines_to_remove ?c}
        = split [NL] ?c ! 2"
    by blast
  have "{j. j < 2 \<and> j \<notin> lines_to_remove ?c} = {1::nat}" unfolding rm by auto
  then have "card {j. j < 2 \<and> j \<notin> lines_to_remove ?c} = 1" by simp
  with k have p: "split [NL] (fst (remove_empty_headings ?c)) ! 1 = lit ''## B''"
    by (simp add: l)
  from remove_empty_headings_idempotent [of ?c]
  have "remove_empty_headings (fst (remove_empty_headings ?c)) = (fst (remove_empty_headings ?c), 0)"
    by blast
  then have "remove_empty_headings (lit ''\<newline>## B\<newline>### sub\<newline>text\<newline>## C\<newline>'')
     = (lit ''\<newline>## B\<newline>### sub\<newline>text\<newline>## C\<newline>'', 0)" by (simp add: r)
  with k p r show ?thesis by simp
qed

lemma new_lines_tail:
  assumes "\<forall>k. i \<le> k \<longrightarrow> k \<notin> rem"
  shows "new_lines lines rem = new_lines (take i lines) rem @ drop i lines"
proof -
  have "enumerate 0 lines = enumerate 0 (take i lines) @ enumerate (length (take i lines)) (drop i lines)"
    using enumerate_append_eq [of 0 "take i lines" "drop i lines"] by simp
  moreover have "filter (\<lambda>(k, line). k \<notin> rem) (enumerate (length (take i lines)) (drop i lines))
      = enumerate (length (take i lines)) (drop i lines)"
  proof (cases "i \<le> length lines")
    case True
    then have "length (take i lines) = i" by simp
    with assms show ?thesis
      by (auto simp: filter_id_conv in_set_enumerate_eq)
  next
    case False
    then show ?thesis by simp
  qed
  ultimately show ?thesis by (simp add: new_lines_def)
qed

lemma trailing_not_empty:
  assumes "\<forall>k. i < k \<and> k < length lines \<longrightarrow> strip (lines ! k) = []"
  shows "\<forall>k. i \<le> k \<longrightarrow> \<not> empty_at lines k"
proof (intro allI impI)
  fix k assume ik: "i \<le> k"
  show "\<not> empty_at lines k"
  proof
    assume "empty_at lines k"
    then obtain j where "k < j" "j < length lines" "match_h2 (lines ! j)"
      using empty_at_later_h2 by blast
    with ik assms have "blank (lines ! j)" "match_h2 (lines ! j)" by (simp_all add: blank_def)
    then show False using match_h2_not_blank by blast
  qed
qed

text \<open>
  Claim C9. When a level-2 heading at index \<open>i\<close> is followed only by blank lines (or by
  nothing) up to the end of the content, \<open>remove_empty_headings\<close> does not remove it
  (the output still ends with that heading line and the lines after it) and
  \<open>find_empty_headings\<close> does not report its line number. The look-ahead classifies a
  heading as empty only when a further level-2 heading is reached: every index removed
  and every line number reported has a level-2 heading at a later index.
\<close>

theorem trailing_empty_heading_kept:
  "(\<forall>i. i < length (split [NL] content) \<and> match_h2 (split [NL] content ! i)
        \<and> (\<forall>k. i < k \<and> k < length (split [NL] content) \<longrightarrow> strip (split [NL] content ! k) = [])
      \<longrightarrow> i \<notin> lines_to_remove content
          \<and> i + 1 \<notin> fst ` set (find_empty_headings content)
          \<and> suffix (join [NL] (drop i (split [NL] content))) (fst (remove_empty_headings content)))
   \<and> (\<forall>i. i \<in> lines_to_remove content \<or> i + 1 \<in> fst ` set (find_empty_headings content)
      \<longrightarrow> (\<exists>j. i < j \<and> j < length (split [NL] content) \<and> match_h2 (split [NL] content ! j)))"
proof (intro conjI allI impI)
  fix i
  assume a: "i < length (split [NL] content) \<and> match_h2 (split [NL] content ! i)
        \<and> (\<forall>k. i < k \<and> k < length (split [NL] content) \<longrightarrow> strip (split [NL] content ! k) = [])"
  let ?ls = "split [NL] content"
  from a have ne: "\<forall>k. i \<le> k \<longrightarrow> \<not> empty_at ?ls k" by (intro trailing_not_empty) simp
  then show "i \<notin> lines_to_remove content" by (simp add: lines_to_remove_eq)
  from ne show "i + 1 \<notin> fst ` set (find_empty_headings content)"
    by (auto simp: find_empty_headings_eq)
  from ne have "new_lines ?ls {k. empty_at ?ls k} = new_lines (take i ?ls) {k. empty_at ?ls k} @ drop i ?ls"
    by (intro new_lines_tail) simp
  moreover from a have "drop i ?ls \<noteq> []" by simp
  ultimately show "suffix (join [NL] (drop i ?ls)) (fst (remove_empty_headings content))"
    by (simp add: remove_empty_headings_def lines_to_remove_def Let_def remove_loop_0 join_append suffix_def)
next
  fix i
  assume "i \<in> lines_to_remove content \<or> i + 1 \<in> fst ` set (find_empty_headings content)"
  then have "empty_at (split [NL] content) i"
    by (auto simp: lines_to_remove_eq find_empty_headings_eq)
  then show "\<exists>j. i < j \<and> j < length (split [NL] content) \<and> match_h2 (split [NL] content ! j)"
    by (rule empty_at_later_h2)
qed

theorem trailing_empty_heading_kept_witness:
  "1 \<notin> lines_to_remove (lit ''intro\<newline>## Last\<newline>\<newline>  \<newline>'')
   \<and> 2 \<notin> fst ` set (find_empty_headings (lit ''intro\<newline>## Last\<newline>\<newline>  \<newline>''))
   \<and> suffix (lit ''## Last\<newline>\<newline>  \<newline>'') (fst (remove_empty_headings (lit ''intro\<newline>## Last\<newline>\<newline>  \<newline>'')))"
proof -
  let ?c = "lit ''intro\<newline>## Last\<newline>\<newline>  \<newline>''"
  have l: "split [NL] ?c = [lit ''intro'', lit ''## Last'', [], lit ''  '', []]"
    by code_simp
  have b: "strip [] = []" "strip (lit ''  '') = []" "match_h2 (lit ''## Last'')" by code_simp+
  have blanks: "\<forall>k. (1::nat) < k \<and> k < length (split [NL] ?c) \<longrightarrow> strip (split [NL] ?c ! k) = []"
  proof (intro allI impI)
    fix k :: nat assume "1 < k \<and> k < length (split [NL] ?c)"
    then have "k = 2 \<or> k = 3 \<or> k = 4" by (auto simp: l)
    with b show "strip (split [NL] ?c ! k) = []" by (auto simp: l)
  qed
  have h: "(1::nat) < length (split [NL] ?c) \<and> match_h2 (split [NL] ?c ! 1)
        \<and> (\<forall>k. 1 < k \<and> k < length (split [NL] ?c) \<longrightarrow> strip (split [NL] ?c ! k) = [])"
    using blanks b by (simp add: l)
  have j: "join [NL] (drop 1 (split [NL] ?c)) = lit ''## Last\<newline>\<newline>  \<newline>''"
    by code_simp
  from trailing_empty_heading_kept [of ?c] h
  have "1 \<notin> lines_to_remove ?c \<and> 1 + 1 \<notin> fst ` set (find_empty_headings ?c)
          \<and> suffix (join [NL] (drop 1 (split [NL] ?c))) (fst (remove_empty_headings ?c))"
    by blast
  with j show ?thesis by (simp add: numeral_2_eq_2)
qed

lemma kept_lines_reported:
  "{k. k + 1 \<notin> fst ` set (find_empty_headings content)} = {k. k \<notin> lines_to_remove content}"
proof -
  have "k + 1 \<in> fst ` set (find_empty_headings content) \<longleftrightarrow> k \<in> lines_to_remove content" for k
  proof
    assume "k + 1 \<in> fst ` set (find_empty_headings content)"
    then show "k \<in> lines_to_remove content"
      by (auto simp: find_empty_headings_eq lines_to_remove_eq)
  next
    assume "k \<in> lines_to_remove content"
    then have "empty_at (split [NL] content) k" by (simp add: lines_to_remove_eq)
    then have "(k + 1, split [NL] content ! k) \<in> set (find_empty_headings content)"
      by (simp add: find_empty_headings_eq empty_at_def)
    then show "k + 1 \<in> fst ` set (find_empty_headings content)" by force
  qed
  then show ?thesis by simp
qed

text \<open>
  Claim C10. \<open>find_empty_headings\<close> and \<open>remove_empty_headings\<close> agree on every
  content: the reported headings are exactly the removed lines, in increasing order,
  each with its 1-based line number and its text, and the text that
  \<open>remove_empty_headings\<close> returns consists of exactly the lines whose line number is
  not reported, in order and joined by newlines. So the length of the report is the
  returned removal count, and \<open>process_file\<close> returns \<open>empty_count\<close>, the length of
  the report, equal to \<open>removed\<close>, and writes that text when it writes.
\<close>

theorem find_and_remove_agree:
  "find_empty_headings content
     = map (\<lambda>k. (k + 1, split [NL] content ! k)) (sorted_list_of_set (lines_to_remove content))
   \<and> fst (remove_empty_headings content)
       = join [NL] (nths (split [NL] content) {k. k + 1 \<notin> fst ` set (find_empty_headings content)})
   \<and> split [NL] (fst (remove_empty_headings content))
       = nths (split [NL] content) {k. k + 1 \<notin> fst ` set (find_empty_headings content)}
   \<and> length (find_empty_headings content) = snd (remove_empty_headings content)
   \<and> empty_count (fst (process_file content dry_run)) = removed (fst (process_file content dry_run))
   \<and> empty_count (fst (process_file content dry_run)) = length (find_empty_headings content)
   \<and> snd (process_file content False)
       = (if find_empty_headings content = [] then None else Some (fst (remove_empty_headings content)))"
proof -
  have a: "find_empty_headings content
     = map (\<lambda>k. (k + 1, split [NL] content ! k)) (sorted_list_of_set (lines_to_remove content))"
    by (simp add: find_empty_headings_eq lines_to_remove_eq sorted_list_empty_at)
  have t: "fst (remove_empty_headings content)
       = join [NL] (nths (split [NL] content) {k. k + 1 \<notin> fst ` set (find_empty_headings content)})"
    unfolding kept_lines_reported by (rule removed_text_nths)
  have l: "split [NL] (fst (remove_empty_headings content))
       = nths (split [NL] content) {k. k + 1 \<notin> fst ` set (find_empty_headings content)}"
    unfolding kept_lines_reported by (rule removed_lines_nths)
  have b: "length (find_empty_headings content) = snd (remove_empty_headings content)"
    by (simp add: find_empty_headings_eq remove_empty_headings_eq card_empty_at)
  have c: "empty_count (fst (process_file content dry_run)) = removed (fst (process_file content dry_run))"
    using b by (simp add: process_file_def Let_def split: prod.splits)
  have d: "empty_count (fst (process_file content dry_run)) = length (find_empty_headings content)"
    by (simp add: process_file_def Let_def split: prod.splits)
  have e: "snd (process_file content False)
       = (if find_empty_headings content = [] then None else Some (fst (remove_empty_headings content)))"
    by (simp add: process_file_def Let_def split: prod.splits)
  from a t l b c d e show ?thesis by simp
qed

theorem find_and_remove_agree_witness:
  "find_empty_headings (lit ''## A\<newline>\<newline>## B\<newline>## C\<newline>x'') = [(1, lit ''## A''), (3, lit ''## B'')]
   \<and> sorted_list_of_set (lines_to_remove (lit ''## A\<newline>\<newline>## B\<newline>## C\<newline>x'')) = [0, 2]
   \<and> remove_empty_headings (lit ''## A\<newline>\<newline>## B\<newline>## C\<newline>x'') = (lit ''\<newline>## C\<newline>x'', 2)"
proof -
  let ?c = "lit ''## A\<newline>\<newline>## B\<newline>## C\<newline>x''"
  have f: "find_empty_headings ?c = [(1, lit ''## A''), (3, lit ''## B'')]" by code_simp
  have r: "lines_to_remove ?c = {0, 2}" by code_simp
  have l: "split [NL] ?c = [lit ''## A'', [], lit ''## B'', lit ''## C'', lit ''x'']" by code_simp
  have k: "{k. k + 1 \<notin> fst ` set (find_empty_headings ?c)} = - {0, 2}"
    unfolding f by auto
  have n: "nths (split [NL] ?c) (- {0, 2}) = [[], lit ''## C'', lit ''x'']"
    unfolding l by (simp add: nths_Cons)
  have j: "join [NL] [[], lit ''## C'', lit ''x''] = lit ''\<newline>## C\<newline>x''" by code_simp
  from find_and_remove_agree [of ?c False]
  have e: "fst (remove_empty_headings ?c)
       = join [NL] (nths (split [NL] ?c) {k. k + 1 \<notin> fst ` set (find_empty_headings ?c)})"
    and c: "length (find_empty_headings ?c) = snd (remove_empty_headings ?c)" by blast+
  have "fst (remove_empty_headings ?c) = lit ''\<newline>## C\<newline>x''"
    by (simp only: e k n j)
  moreover from c have "snd (remove_empty_headings ?c) = 2" by (simp add: f)
  ultimately have "remove_empty_headings ?c = (lit ''\<newline>## C\<newline>x'', 2)"
    by (simp add: prod_eq_iff)
  with f r show ?thesis by simp
qed

section \<open>The check identifiers of the section rule engine\<close>

lemma filter_none: "(\<And>x. x \<in> set xs \<Longrightarrow> \<not> P x) \<Longrightarrow> filter P xs = []"
  by (induction xs) auto

lemma code_block_checks:
  "x \<in> set (check_code_blocks_in_section s t) \<Longrightarrow> check x = ''code_block_subsection''"
  by (auto simp: check_code_blocks_in_section_def check_code_block_def issue_def Let_def split: if_splits)

lemma bare_checks:
  "x \<in> set (check_bare_code_blocks content) \<Longrightarrow> check x = ''bare_code_block''"
  by (auto simp: check_bare_code_blocks_def issue_def)

lemma check_section_checks:
  "x \<in> set (check_section i section) \<Longrightarrow>
     check x = ''section_length'' \<or> check x = ''section_pronoun'' \<or> check x = ''code_block_subsection''"
  by (auto simp: check_section_def Let_def issue_def split: if_splits dest: code_block_checks)

lemma check_sections_loop_checks:
  "x \<in> set (concat (map (\<lambda>(i, section). check_section i section) (enumerate n ss))) \<Longrightarrow>
     check x = ''section_length'' \<or> check x = ''section_pronoun'' \<or> check x = ''code_block_subsection''"
  by (auto dest: check_section_checks)

section \<open>Properties of the heading hierarchy check and of documents without sections\<close>

lemma hierarchy_loop_eq:
  "hierarchy_loop prev n lines =
     map hierarchy_warning
       (filter skips_level
          (zip (headings_from n lines) (prev # map (\<lambda>(k, line). heading_level line) (headings_from n lines))))"
proof (induction lines arbitrary: prev n)
  case Nil
  show ?case by (simp add: headings_from_def)
next
  case (Cons line rest)
  show ?case
  proof (cases "is_heading line")
    case True
    then have h: "headings_from n (line # rest) = (n, line) # headings_from (n + 1) rest"
      by (simp add: headings_from_def)
    from True have p: "prefix [35] line" by (simp add: is_heading_def)
    show ?thesis
      unfolding h using p Cons [of "heading_level line" "n + 1"]
      by (simp add: Let_def heading_level_def [symmetric] skips_level_def hierarchy_warning_def issue_def)
  next
    case False
    then have h: "headings_from n (line # rest) = headings_from (n + 1) rest"
      by (simp add: headings_from_def)
    from False have p: "\<not> prefix [35] line" by (simp add: is_heading_def)
    show ?thesis
      unfolding h using p Cons [of prev "n + 1"] by simp
  qed
qed

lemma check_heading_hierarchy_eq:
  "check_heading_hierarchy content =
     map hierarchy_warning (filter skips_level (zip (headings content) (1 # heading_levels content)))"
  by (simp add: check_heading_hierarchy_def hierarchy_loop_eq headings_def heading_levels_def)

lemma length_hierarchy:
  "length (check_heading_hierarchy content) =
     length (filter (\<lambda>(l, p). l > p + 1) (zip (heading_levels content) (1 # heading_levels content)))"
proof -
  have "\<And>ps. length (filter skips_level (zip hs ps)) =
     length (filter (\<lambda>(l, p). l > p + 1) (zip (map (\<lambda>(k, line). heading_level line) hs) ps))" for hs
  proof (induction hs)
    case Nil
    show ?case by simp
  next
    case (Cons h hs)
    show ?case using Cons [of "tl ps"]
      by (cases ps; cases h) (simp_all add: skips_level_def)
  qed
  then show ?thesis by (simp add: check_heading_hierarchy_eq heading_levels_def)
qed

lemma hierarchy_all_warn:
  "x \<in> set (check_heading_hierarchy content) \<Longrightarrow> level x = ''WARN'' \<and> check x = ''heading_hierarchy''"
  by (auto simp: check_heading_hierarchy_eq hierarchy_warning_def)

text \<open>
  Claim C5. \<open>_check_heading_hierarchy\<close> walks the heading lines in document order,
  with the previous level 1 at the start and set to the level of every heading it
  passes, whether it warned or not: it emits one WARN \<open>heading_hierarchy\<close> for exactly
  the headings whose level exceeds the level before them plus 1, with the number of
  their line. A content whose headings have the levels 1, 2, 4 gets exactly one such
  WARN, and one whose headings have the levels 1, 2, 3, 4 gets none. For a document
  that has a section, these are the \<open>heading_hierarchy\<close> issues of \<open>_check_sections\<close>.
\<close>

theorem heading_hierarchy_warns_on_skips:
  "check_heading_hierarchy content =
     map hierarchy_warning (filter skips_level (zip (headings content) (1 # heading_levels content)))
   \<and> (heading_levels content = [1, 2, 4] \<longrightarrow>
        length (check_heading_hierarchy content) = 1
        \<and> (\<forall>x \<in> set (check_heading_hierarchy content). level x = ''WARN'' \<and> check x = ''heading_hierarchy''))
   \<and> (heading_levels content = [1, 2, 3, 4] \<longrightarrow> check_heading_hierarchy content = [])
   \<and> (2 \<le> length (split (lit ''\<newline>## '') content) \<longrightarrow>
        filter (\<lambda>x. check x = ''heading_hierarchy'') (check_sections content)
          = check_heading_hierarchy content)"
proof -
  have a: "check_heading_hierarchy content =
     map hierarchy_warning (filter skips_level (zip (headings content) (1 # heading_levels content)))"
    by (rule check_heading_hierarchy_eq)
  have b: "length (check_heading_hierarchy content) = 1" if "heading_levels content = [1, 2, 4]"
    using that by (simp add: length_hierarchy)
  have c: "\<forall>x \<in> set (check_heading_hierarchy content). level x = ''WARN'' \<and> check x = ''heading_hierarchy''"
    using hierarchy_all_warn by blast
  have d: "check_heading_hierarchy content = []" if "heading_levels content = [1, 2, 3, 4]"
  proof -
    from that have "length (check_heading_hierarchy content) = 0" by (simp add: length_hierarchy)
    then show ?thesis by simp
  qed
  have e: "filter (\<lambda>x. check x = ''heading_hierarchy'') (check_sections content)
          = check_heading_hierarchy content"
    if "2 \<le> length (split (lit ''\<newline>## '') content)"
  proof -
    have s: "filter (\<lambda>x. check x = ''heading_hierarchy'')
        (concat (map (\<lambda>(i, section). check_section i section) (enumerate n ss))) = []" for n ss
    proof (rule filter_none)
      fix x
      assume "x \<in> set (concat (map (\<lambda>(i, section). check_section i section) (enumerate n ss)))"
      from check_sections_loop_checks [OF this] show "\<not> check x = ''heading_hierarchy''"
        by auto
    qed
    have bc: "filter (\<lambda>x. check x = ''heading_hierarchy'') (check_bare_code_blocks content) = []"
      by (rule filter_none) (auto dest: bare_checks)
    have hh: "filter (\<lambda>x. check x = ''heading_hierarchy'') (check_heading_hierarchy content)
        = check_heading_hierarchy content"
      using c by (simp add: filter_id_conv)
    from that show ?thesis by (simp add: check_sections_def Let_def s bc hh)
  qed
  from a b c d e show ?thesis by blast
qed

theorem heading_hierarchy_warns_on_skips_witness:
  "heading_levels (lit ''# A\<newline>## B\<newline>text\<newline>#### C'') = [1, 2, 4]
   \<and> map line_number (check_heading_hierarchy (lit ''# A\<newline>## B\<newline>text\<newline>#### C'')) = [Some 4]
   \<and> map line_number
         (filter (\<lambda>x. check x = ''heading_hierarchy'') (check_sections (lit ''# A\<newline>## B\<newline>text\<newline>#### C'')))
       = [Some 4]
   \<and> heading_levels (lit ''# A\<newline>## B\<newline>### C\<newline>#### D'') = [1, 2, 3, 4]
   \<and> check_heading_hierarchy (lit ''# A\<newline>## B\<newline>### C\<newline>#### D'') = []"
proof -
  let ?a = "lit ''# A\<newline>## B\<newline>text\<newline>#### C''"
  let ?b = "lit ''# A\<newline>## B\<newline>### C\<newline>#### D''"
  have la: "heading_levels ?a = [1, 2, 4]" by code_simp
  have lb: "heading_levels ?b = [1, 2, 3, 4]" by code_simp
  have ha: "headings ?a = [(1, lit ''# A''), (2, lit ''## B''), (4, lit ''#### C'')]" by code_simp
  have sa: "2 \<le> length (split (lit ''\<newline>## '') ?a)" by code_simp
  from heading_hierarchy_warns_on_skips [of ?a] la
  have "length (check_heading_hierarchy ?a) = 1" by blast
  moreover from heading_hierarchy_warns_on_skips [of ?a]
  have "map line_number (check_heading_hierarchy ?a)
      = map line_number (map hierarchy_warning (filter skips_level (zip (headings ?a) (1 # heading_levels ?a))))"
    by simp
  then have n: "map line_number (check_heading_hierarchy ?a) = [Some 4]"
    unfolding ha la by (simp add: skips_level_def hierarchy_warning_def heading_level_def lit_def)
  moreover from heading_hierarchy_warns_on_skips [of ?a] sa
  have "filter (\<lambda>x. check x = ''heading_hierarchy'') (check_sections ?a) = check_heading_hierarchy ?a"
    by blast
  moreover from heading_hierarchy_warns_on_skips [of ?b] lb
  have "check_heading_hierarchy ?b = []" by blast
  ultimately show ?thesis using la lb by simp
qed

text \<open>
  Claim C2, as amended. For every document without a section (no occurrence of a
  newline followed by \<open>## \<close>), \<open>_check_sections\<close> emits exactly one WARN,
  \<open>sections_exist\<close>, and returns: the checks of the single sections are skipped, and so
  are the bare-code-block check and the heading-hierarchy check. These two are applied
  to the documents that have a section, where their issues end the list.
\<close>

theorem no_sections_only_warn:
  "(length (split (lit ''\<newline>## '') content) < 2 \<longrightarrow>
      check_sections content =
        [\<lparr>level = ''WARN'', check = ''sections_exist'',
          message = [Lit ''No ## sections found in document''],
          line_number = None, details = None\<rparr>])
   \<and> (2 \<le> length (split (lit ''\<newline>## '') content) \<longrightarrow>
        suffix (check_bare_code_blocks content @ check_heading_hierarchy content)
          (check_sections content))"
proof (intro conjI impI)
  assume "length (split (lit ''\<newline>## '') content) < 2"
  then show "check_sections content =
        [\<lparr>level = ''WARN'', check = ''sections_exist'',
          message = [Lit ''No ## sections found in document''],
          line_number = None, details = None\<rparr>]"
    by (simp add: check_sections_def issue_def)
next
  assume "2 \<le> length (split (lit ''\<newline>## '') content)"
  then have "check_sections content =
      concat (map (\<lambda>(i, section). check_section i section)
        (enumerate 1 (tl (split (lit ''\<newline>## '') content))))
      @ (check_bare_code_blocks content @ check_heading_hierarchy content)"
    by (simp add: check_sections_def Let_def)
  then show "suffix (check_bare_code_blocks content @ check_heading_hierarchy content)
      (check_sections content)"
    by (metis suffixI)
qed

theorem no_sections_only_warn_witness:
  "length (split (lit ''\<newline>## '') (lit ''# T\<newline>#### deep\<newline>'')) < 2
   \<and> map check (check_sections (lit ''# T\<newline>#### deep\<newline>'')) = [''sections_exist'']
   \<and> 2 \<le> length (split (lit ''\<newline>## '') (lit ''# T\<newline>## A\<newline>#### deep\<newline>''))
   \<and> suffix (check_heading_hierarchy (lit ''# T\<newline>## A\<newline>#### deep\<newline>''))
         (check_sections (lit ''# T\<newline>## A\<newline>#### deep\<newline>''))"
proof -
  let ?a = "lit ''# T\<newline>#### deep\<newline>''"
  let ?b = "lit ''# T\<newline>## A\<newline>#### deep\<newline>''"
  have h: "length (split (lit ''\<newline>## '') ?a) < 2" by code_simp
  have g: "2 \<le> length (split (lit ''\<newline>## '') ?b)" by code_simp
  have e: "check_bare_code_blocks ?b = []" by code_simp
  from no_sections_only_warn [of ?a] h
  have a: "map check (check_sections ?a) = [''sections_exist'']" by simp
  from no_sections_only_warn [of ?b] g
  have "suffix (check_bare_code_blocks ?b @ check_heading_hierarchy ?b) (check_sections ?b)"
    by blast
  with e have "suffix (check_heading_hierarchy ?b) (check_sections ?b)" by simp
  with a h g show ?thesis by simp
qed

text \<open>
  Claim C2 as stated fails: on the document below, which has no section,
  \<open>_check_sections\<close> returns the one WARN \<open>sections_exist\<close> and nothing else, while the
  heading-hierarchy check and the bare-code-block check, run on that document, would
  each emit a WARN. The two whole-document checks are not applied.
\<close>

theorem no_sections_skips_document_checks:
  "check_sections (lit ''#### deep\<newline>'' @ fence @ lit ''\<newline>x\<newline>'' @ fence)
     = [\<lparr>level = ''WARN'', check = ''sections_exist'',
         message = [Lit ''No ## sections found in document''],
         line_number = None, details = None\<rparr>]
   \<and> map check (check_heading_hierarchy (lit ''#### deep\<newline>'' @ fence @ lit ''\<newline>x\<newline>'' @ fence))
     = [''heading_hierarchy'']
   \<and> map check (check_bare_code_blocks (lit ''#### deep\<newline>'' @ fence @ lit ''\<newline>x\<newline>'' @ fence))
     = [''bare_code_block'']"
  by code_simp

section \<open>Properties of the sections of the specification\<close>

lemma spec_cut_not_Nil: "spec_cut bol s \<noteq> []"
  by (cases s) (simp_all add: Let_def)

text \<open>The pieces of \<open>spec_cut\<close> partition the text, without gaps or overlaps.\<close>

lemma spec_cut_partition: "concat (spec_cut bol s) = s"
proof (induction s arbitrary: bol)
  case Nil
  show ?case by simp
next
  case (Cons c cs)
  obtain p ps where sp: "spec_cut (c = NL) cs = p # ps"
    using spec_cut_not_Nil [of "c = NL" cs] by (cases "spec_cut (c = NL) cs") auto
  with Cons [of "c = NL"] have "p @ concat ps = cs" by simp
  with sp show ?case by (simp add: Let_def)
qed

lemma unterminated_terminated: "unterminated (terminated xs) = xs"
proof (induction xs rule: terminated.induct)
  case (3 x y ys)
  then show ?case by (cases "terminated (y # ys)") (auto split: if_splits)
qed simp_all

lemma tl_terminated: "tl (terminated (x # xs)) = terminated xs"
  by (cases xs) simp_all

lemma terminated_longer:
  "x \<in> set xs \<Longrightarrow> \<exists>y \<in> set (terminated xs). length x \<le> length y"
  by (induction xs rule: terminated.induct) auto

lemma h2_no_newline: "match_h2 (c # cs) \<Longrightarrow> c \<noteq> NL"
  by (auto simp: match_h2_def lit_def)

lemma spec_cut_True:
  "spec_cut True s = (if match_h2 s then [] # spec_cut False s else spec_cut False s)"
proof (cases s)
  case Nil
  then show ?thesis by (simp add: match_h2_def lit_def)
next
  case (Cons c cs)
  then show ?thesis
    using h2_no_newline [of c cs] by (auto simp: Let_def)
qed

lemma spec_cut_Cons:
  "spec_cut False (c # cs) = (c # hd (spec_cut (c = NL) cs)) # tl (spec_cut (c = NL) cs)"
  by (simp add: Let_def)

lemma spec_cut_heading:
  "spec_cut False (lit ''## '' @ rest)
     = (lit ''## '' @ hd (spec_cut False rest)) # tl (spec_cut False rest)"
  by (simp add: lit_def Let_def)

text \<open>
  The regions cut at the level-2 headings after the first line are the pieces of
  \<^verbatim>\<open>re.split(r'\n## ', content)\<close>, each but the first with \<open>## \<close> put back in front
  and each but the last with the newline, which the pattern of the source consumes, put
  back at the end.
\<close>

lemma spec_cut_False:
  "spec_cut False s
     = terminated (hd (split (lit ''\<newline>## '') s)
                   # map (\<lambda>section. lit ''## '' @ section) (tl (split (lit ''\<newline>## '') s)))"
proof (induction "lit ''\<newline>## ''" s rule: split.induct)
  case 1
  show ?case by simp
next
  case (2 c cs)
  let ?sep = "lit ''\<newline>## ''"
  let ?h = "lit ''## ''"
  have sep: "?sep = NL # ?h" by (simp add: lit_def)
  show ?case
  proof (cases "prefix ?sep (c # cs)")
    case True
    then have c: "c = NL" and p: "prefix ?h cs" by (simp_all add: sep)
    define rest where "rest = drop (length ?sep) (c # cs)"
    from p have cs: "cs = ?h @ rest"
      by (auto simp: rest_def sep prefix_def lit_def)
    have ne: "?sep \<noteq> []" by (simp add: sep)
    from 2(1) ne True
    have ih: "spec_cut False rest
        = terminated (hd (split ?sep rest) # map (\<lambda>section. ?h @ section) (tl (split ?sep rest)))"
      by (simp add: rest_def)
    obtain q qs where sp: "split ?sep rest = q # qs"
      using split_not_Nil [of ?sep rest] by (cases "split ?sep rest") auto
    have m: "match_h2 cs" using p by (simp add: match_h2_def)
    have "spec_cut False (c # cs) = [NL] # spec_cut False cs"
      using c m by (simp add: spec_cut_Cons spec_cut_True)
    also have "spec_cut False cs = (?h @ hd (spec_cut False rest)) # tl (spec_cut False rest)"
      unfolding cs by (rule spec_cut_heading)
    also have "\<dots> = terminated ((?h @ q) # map (\<lambda>section. ?h @ section) qs)"
      unfolding ih sp by (cases qs) simp_all
    finally have l: "spec_cut False (c # cs) = [NL] # terminated (map (\<lambda>section. ?h @ section) (q # qs))"
      by simp
    have "split ?sep (c # cs) = [] # split ?sep rest"
      using True ne by (simp add: rest_def)
    then show ?thesis using l sp by simp
  next
    case False
    then have n: "\<not> (?sep \<noteq> [] \<and> prefix ?sep (c # cs))" by simp
    from 2(2) [OF n]
    have ih: "spec_cut False cs
        = terminated (hd (split ?sep cs) # map (\<lambda>section. ?h @ section) (tl (split ?sep cs)))" .
    have t: "spec_cut (c = NL) cs = spec_cut False cs"
    proof (cases "c = NL")
      case True
      with False have "\<not> match_h2 cs" by (simp add: sep match_h2_def)
      with True show ?thesis by (simp add: spec_cut_True)
    next
      case False
      then show ?thesis by simp
    qed
    obtain q qs where sp: "split ?sep cs = q # qs"
      using split_not_Nil [of ?sep cs] by (cases "split ?sep cs") auto
    have "spec_cut False (c # cs) = (c # hd (spec_cut False cs)) # tl (spec_cut False cs)"
      by (simp add: Let_def t)
    also have "\<dots> = terminated ((c # q) # map (\<lambda>section. ?h @ section) qs)"
      unfolding ih sp by (cases qs) simp_all
    finally show ?thesis using split_Cons_other [OF n] sp by simp
  qed
qed

lemma spec_sections_eq:
  "spec_sections content
     = terminated ((if match_h2 content then [hd (split (lit ''\<newline>## '') content)] else [])
                   @ section_contents content)"
  by (simp add: spec_sections_def spec_cut_True spec_cut_False section_contents_def tl_terminated)

lemma section_contents_eq:
  "section_contents content
     = unterminated (if match_h2 content then tl (spec_sections content) else spec_sections content)"
  by (simp add: spec_sections_eq tl_terminated unterminated_terminated)

lemma section_in_spec_section:
  assumes "s \<in> set (section_contents content)"
  shows "\<exists>r \<in> set (spec_sections content). length s \<le> length r"
proof -
  from assms
  have "s \<in> set ((if match_h2 content then [hd (split (lit ''\<newline>## '') content)] else [])
                   @ section_contents content)" by simp
  then show ?thesis unfolding spec_sections_eq by (rule terminated_longer)
qed

text \<open>The sections of two documents with one heading after the first line, or two.\<close>

lemma section_contents_one:
  "NL \<notin> set a \<Longrightarrow> NL \<notin> set b \<Longrightarrow>
     section_contents (a @ lit ''\<newline>## '' @ b) = [lit ''## '' @ b]"
proof -
  assume a: "NL \<notin> set a" and b: "NL \<notin> set b"
  let ?sep = "lit ''\<newline>## ''"
  have sep: "?sep \<noteq> []" "hd ?sep = NL" by (simp_all add: lit_def)
  have "split ?sep (a @ ?sep @ b) = a # split ?sep b"
    by (rule split_append_sep) (simp_all add: sep a)
  moreover have "split ?sep b = [b]"
    by (rule split_no_first) (simp_all add: sep b)
  ultimately show ?thesis by (simp add: section_contents_def)
qed

lemma section_contents_two:
  "NL \<notin> set a \<Longrightarrow> NL \<notin> set b \<Longrightarrow> NL \<notin> set c \<Longrightarrow>
     section_contents (a @ lit ''\<newline>## '' @ b @ lit ''\<newline>## '' @ c) = [lit ''## '' @ b, lit ''## '' @ c]"
proof -
  assume a: "NL \<notin> set a" and b: "NL \<notin> set b" and c: "NL \<notin> set c"
  let ?sep = "lit ''\<newline>## ''"
  have sep: "?sep \<noteq> []" "hd ?sep = NL" by (simp_all add: lit_def)
  have "split ?sep (a @ ?sep @ b @ ?sep @ c) = a # split ?sep (b @ ?sep @ c)"
    by (rule split_append_sep) (simp_all add: sep a)
  moreover have "split ?sep (b @ ?sep @ c) = b # split ?sep c"
    by (rule split_append_sep) (simp_all add: sep b)
  moreover have "split ?sep c = [c]"
    by (rule split_no_first) (simp_all add: sep c)
  ultimately show ?thesis by (simp add: section_contents_def)
qed

section \<open>Properties of the section length check\<close>

lemma length_issues_section:
  "filter is_length_issue (check_section i section) =
     (if length (lit ''## '' @ section) > 1500 then [length_issue (lit ''## '' @ section)] else [])"
proof -
  have cb: "filter is_length_issue (check_code_blocks_in_section s t) = []" for s t
    by (rule filter_none) (auto simp: is_length_issue_def dest: code_block_checks)
  show ?thesis
    by (simp add: check_section_def Let_def cb split_not_Nil MAX_SECTION_LENGTH_def
        is_length_issue_def issue_def length_issue_def)
qed

lemma length_issues_sections:
  "filter is_length_issue (concat (map (\<lambda>(i, section). check_section i section) (enumerate n ss)))
     = map length_issue (filter (\<lambda>s. length s > 1500) (map (\<lambda>section. lit ''## '' @ section) ss))"
proof (induction ss arbitrary: n)
  case Nil
  show ?case by simp
next
  case (Cons s ss)
  show ?case using Cons [of "Suc n"] by (simp add: length_issues_section)
qed

lemma length_issues_eq:
  "filter is_length_issue (check_sections content)
     = map length_issue (filter (\<lambda>s. length s > 1500) (section_contents content))"
proof (cases "length (split (lit ''\<newline>## '') content) < 2")
  case True
  then have "tl (split (lit ''\<newline>## '') content) = []"
    by (cases "split (lit ''\<newline>## '') content") (auto simp: Suc_less_eq2 numeral_2_eq_2)
  with True show ?thesis
    by (simp add: check_sections_def section_contents_def is_length_issue_def issue_def)
next
  case False
  have b: "filter is_length_issue (check_bare_code_blocks content) = []"
    by (rule filter_none) (auto simp: is_length_issue_def dest: bare_checks)
  have h: "filter is_length_issue (check_heading_hierarchy content) = []"
    by (rule filter_none) (auto simp: is_length_issue_def dest: hierarchy_all_warn)
  from False show ?thesis
    by (simp add: check_sections_def Let_def b h length_issues_sections section_contents_def)
qed

text \<open>
  Claim C4, as amended. The \<open>section_length\<close> issues of a document are exactly one
  FAIL for every section, as the splitter gives it, whose length exceeds 1500. The
  splitter gives a section for every region of the specification whose heading is after
  the first line, and measures it from its \<open>## \<close> up to, and without, the newline
  before the next level-2 heading (a last section is measured whole); a region whose
  heading is on the first line is not measured. So a document whose every section so
  measured has at most 1500 characters produces no \<open>section_length\<close> issue, which
  holds in particular when every region of the specification has at most 1500
  characters; and a document with one section measured at exactly 1501 characters (the
  others at most 1500) produces exactly one, a FAIL.
\<close>

theorem section_length_limit:
  "filter is_length_issue (check_sections content)
     = map length_issue (filter (\<lambda>s. length s > 1500) (section_contents content))
   \<and> section_contents content
       = unterminated (if match_h2 content then tl (spec_sections content) else spec_sections content)
   \<and> spec_sections content
       = terminated ((if match_h2 content then [hd (split (lit ''\<newline>## '') content)] else [])
                     @ section_contents content)
   \<and> ((\<forall>s \<in> set (section_contents content). length s \<le> 1500)
        \<longrightarrow> filter is_length_issue (check_sections content) = [])
   \<and> ((\<forall>r \<in> set (spec_sections content). length r \<le> 1500)
        \<longrightarrow> filter is_length_issue (check_sections content) = [])
   \<and> (\<forall>before s after.
         section_contents content = before @ [s] @ after \<and> length s = 1501
         \<and> (\<forall>t \<in> set (before @ after). length t \<le> 1500)
        \<longrightarrow> filter is_length_issue (check_sections content) = [length_issue s]
            \<and> level (length_issue s) = ''FAIL'')"
proof -
  have a: "filter is_length_issue (check_sections content)
     = map length_issue (filter (\<lambda>s. length s > 1500) (section_contents content))"
    by (rule length_issues_eq)
  have r1: "section_contents content
       = unterminated (if match_h2 content then tl (spec_sections content) else spec_sections content)"
    by (rule section_contents_eq)
  have r2: "spec_sections content
       = terminated ((if match_h2 content then [hd (split (lit ''\<newline>## '') content)] else [])
                     @ section_contents content)"
    by (rule spec_sections_eq)
  have b: "filter is_length_issue (check_sections content) = []"
    if "\<forall>s \<in> set (section_contents content). length s \<le> 1500"
  proof -
    from that have "filter (\<lambda>s. length s > 1500) (section_contents content) = []"
      by (intro filter_none) auto
    with a show ?thesis by simp
  qed
  have b': "filter is_length_issue (check_sections content) = []"
    if "\<forall>r \<in> set (spec_sections content). length r \<le> 1500"
  proof (rule b, rule ballI)
    fix s assume "s \<in> set (section_contents content)"
    then obtain r where "r \<in> set (spec_sections content)" "length s \<le> length r"
      using section_in_spec_section by blast
    with that show "length s \<le> 1500" by fastforce
  qed
  have c: "filter is_length_issue (check_sections content) = [length_issue s]
            \<and> level (length_issue s) = ''FAIL''"
    if "section_contents content = before @ [s] @ after \<and> length s = 1501
         \<and> (\<forall>t \<in> set (before @ after). length t \<le> 1500)" for before s after
  proof -
    from that have le: "\<And>t. t \<in> set before \<union> set after \<Longrightarrow> \<not> 1500 < length t"
      by (simp add: not_less)
    have "filter (\<lambda>s. length s > 1500) before = []"
      by (rule filter_none) (rule le, simp)
    moreover have "filter (\<lambda>s. length s > 1500) after = []"
      by (rule filter_none) (rule le, simp)
    ultimately have "filter (\<lambda>s. length s > 1500) before = []" "filter (\<lambda>s. length s > 1500) after = []"
      by simp_all
    with that a show ?thesis by (simp add: length_issue_def)
  qed
  from a r1 r2 b b' c show ?thesis by blast
qed

theorem section_length_limit_witness:
  "map check (filter is_length_issue
       (check_sections (lit ''T'' @ lit ''\<newline>## '' @ replicate 1498 97 @ lit ''\<newline>## '' @ lit ''B'')))
     = [''section_length'']
   \<and> filter is_length_issue
       (check_sections (lit ''T'' @ lit ''\<newline>## '' @ replicate 1496 97 @ lit ''\<newline>## '' @ lit ''B'')) = []
   \<and> filter is_length_issue (check_sections (lit ''T'' @ lit ''\<newline>## '' @ replicate 1497 97)) = []"
proof -
  let ?sep = "lit ''\<newline>## ''"
  let ?h = "lit ''## ''"
  have sc2: "section_contents (lit ''T'' @ ?sep @ replicate n 97 @ ?sep @ lit ''B'')
      = [?h @ replicate n 97, ?h @ lit ''B'']" for n
    by (rule section_contents_two) (simp_all add: lit_def)
  have sc1: "section_contents (lit ''T'' @ ?sep @ replicate n 97) = [?h @ replicate n 97]" for n
    by (rule section_contents_one) (simp_all add: lit_def)
  have nh: "\<not> match_h2 (lit ''T'' @ x)" for x by (simp add: match_h2_def lit_def)
  let ?c1 = "lit ''T'' @ ?sep @ replicate 1498 97 @ ?sep @ lit ''B''"
  let ?c0 = "lit ''T'' @ ?sep @ replicate 1496 97 @ ?sep @ lit ''B''"
  let ?cf = "lit ''T'' @ ?sep @ replicate 1497 97"
  have h1: "section_contents ?c1 = [] @ [?h @ replicate 1498 97] @ [?h @ lit ''B'']
      \<and> length (?h @ replicate 1498 (97::nat)) = 1501
      \<and> (\<forall>t \<in> set ([] @ [?h @ lit ''B'']). length (t::str) \<le> 1500)"
    using sc2 [of 1498] by (simp add: lit_def)
  from section_length_limit [of ?c1] h1
  have "filter is_length_issue (check_sections ?c1) = [length_issue (?h @ replicate 1498 97)]"
    by blast
  then have a: "map check (filter is_length_issue (check_sections ?c1)) = [''section_length'']"
    by (simp add: length_issue_def)
  from section_length_limit [of ?c0]
  have "spec_sections ?c0
       = terminated ((if match_h2 ?c0 then [hd (split ?sep ?c0)] else []) @ section_contents ?c0)"
    by blast
  then have "spec_sections ?c0 = [?h @ replicate 1496 97 @ [NL], ?h @ lit ''B'']"
    by (simp add: nh sc2)
  then have h0: "\<forall>r \<in> set (spec_sections ?c0). length r \<le> 1500"
    by (simp add: lit_def)
  from section_length_limit [of ?c0] h0
  have b: "filter is_length_issue (check_sections ?c0) = []" by blast
  have hf: "\<forall>s \<in> set (section_contents ?cf). length s \<le> 1500"
    using sc1 [of 1497] by (simp add: lit_def)
  from section_length_limit [of ?cf] hf
  have c: "filter is_length_issue (check_sections ?cf) = []" by blast
  from a b c show ?thesis by simp
qed

text \<open>
  Claim C4 as stated fails for the sections of the specification. In the first
  document the first section spans 1501 characters, from its \<open>## \<close> to the start of
  the next level-2 heading, the newline before that heading included; the check
  measures it without that newline, as 1500 characters, and emits no
  \<open>section_length\<close> issue. In the second document the heading is on the first line
  and its section has 1501 characters; the splitter gives no section, and no
  \<open>section_length\<close> issue is emitted.
\<close>

theorem section_length_newline_counterexample:
  "map length (spec_sections (lit ''T'' @ lit ''\<newline>## '' @ replicate 1497 97 @ lit ''\<newline>## '' @ lit ''B''))
     = [1501, 4]
   \<and> map length (section_contents (lit ''T'' @ lit ''\<newline>## '' @ replicate 1497 97 @ lit ''\<newline>## '' @ lit ''B''))
     = [1500, 4]
   \<and> filter is_length_issue
       (check_sections (lit ''T'' @ lit ''\<newline>## '' @ replicate 1497 97 @ lit ''\<newline>## '' @ lit ''B'')) = []
   \<and> map length (spec_sections (lit ''## '' @ replicate 1498 97)) = [1501]
   \<and> section_contents (lit ''## '' @ replicate 1498 97) = []
   \<and> filter is_length_issue (check_sections (lit ''## '' @ replicate 1498 97)) = []"
proof -
  let ?sep = "lit ''\<newline>## ''"
  let ?h = "lit ''## ''"
  let ?c = "lit ''T'' @ ?sep @ replicate 1497 97 @ ?sep @ lit ''B''"
  let ?d = "?h @ replicate 1498 97"
  have sc: "section_contents ?c = [?h @ replicate 1497 97, ?h @ lit ''B'']"
    by (rule section_contents_two) (simp_all add: lit_def)
  have nh: "\<not> match_h2 ?c" by (simp add: match_h2_def lit_def)
  have sp: "spec_sections ?c = [?h @ replicate 1497 97 @ [NL], ?h @ lit ''B'']"
    by (simp add: spec_sections_eq nh sc)
  have a1: "map length (spec_sections ?c) = [1501, 4]"
    unfolding sp by (simp add: lit_def)
  have a2: "map length (section_contents ?c) = [1500, 4]"
    unfolding sc by (simp add: lit_def)
  have a3: "filter is_length_issue (check_sections ?c) = []"
    unfolding length_issues_eq sc by (simp add: lit_def)
  have sep: "?sep \<noteq> []" "hd ?sep = NL" by (simp_all add: lit_def)
  have sd: "split ?sep ?d = [?d]"
    by (rule split_no_first) (simp_all add: sep, simp add: lit_def)
  then have b2: "section_contents ?d = []" by (simp add: section_contents_def)
  have h: "match_h2 ?d" by (simp add: match_h2_def)
  have "spec_sections ?d = [?d]"
    by (simp add: spec_sections_eq h sd b2)
  then have b1: "map length (spec_sections ?d) = [1501]" by (simp add: lit_def)
  have b3: "filter is_length_issue (check_sections ?d) = []"
    unfolding length_issues_eq b2 by simp
  from a1 a2 a3 b1 b2 b3 show ?thesis by simp
qed

section \<open>Properties of the pronoun check\<close>

lemma join_blank:
  "first_nonblank_line ls = None \<Longrightarrow> strip (join [NL] ls) = []"
proof (induction ls)
  case Nil
  show ?case by (simp add: strip_def lstrip_def rstrip_def)
next
  case (Cons x xs)
  then have x: "strip x = []" and xs: "first_nonblank_line xs = None"
    by (auto simp: first_nonblank_line_def split: if_splits)
  show ?case
  proof (cases xs)
    case Nil
    with x show ?thesis by simp
  next
    case (Cons y ys)
    from Cons.IH [OF xs] x have "\<forall>c \<in> set (x @ [NL] @ join [NL] xs). isspace c"
      by (auto simp: strip_empty_iff isspace_NL)
    with Cons show ?thesis by (simp add: strip_empty_iff)
  qed
qed

lemma join_lstrip:
  "first_nonblank_line ls = Some l \<Longrightarrow>
     \<exists>tail. lstrip (join [NL] ls) = lstrip l @ tail \<and> (tail = [] \<or> (\<exists>u. tail = NL # u))"
proof (induction ls)
  case Nil
  then show ?case by (simp add: first_nonblank_line_def)
next
  case (Cons x xs)
  show ?case
  proof (cases "strip x = []")
    case False
    with Cons.prems have "l = x" by (simp add: first_nonblank_line_def)
    with False show ?thesis by (cases xs) (auto simp: lstrip_append)
  next
    case True
    with Cons.prems have f: "first_nonblank_line xs = Some l" by (simp add: first_nonblank_line_def)
    then have "xs \<noteq> []" by (auto simp: first_nonblank_line_def)
    then have "join [NL] (x # xs) = x @ [NL] @ join [NL] xs" by (cases xs) auto
    moreover have "strip [NL] = []" by (simp add: strip_empty_iff isspace_NL)
    ultimately have "lstrip (join [NL] (x # xs)) = lstrip (join [NL] xs)"
      using True by (simp add: lstrip_append) (simp add: lstrip_def isspace_NL)
    with Cons.IH [OF f] show ?thesis by simp
  qed
qed

lemma first_sentence_of_tail:
  assumes "NL \<notin> set l" "strip l \<noteq> []" "tail = [] \<or> (\<exists>u. tail = NL # u)"
  shows "strip (hd (split [NL] (rstrip (lstrip l @ tail)))) = strip l"
proof -
  have nl: "NL \<notin> set (lstrip l)" "NL \<notin> set (strip l)"
    using assms(1) set_lstrip [of l] set_strip [of l] by auto
  have whole: "strip (hd (split [NL] (strip l))) = strip l"
    using nl by (simp add: split1_no_sep strip_strip)
  show ?thesis
  proof (cases "strip tail = []")
    case True
    then have "rstrip (lstrip l @ tail) = strip l" by (simp add: rstrip_append strip_def)
    with whole show ?thesis by simp
  next
    case False
    with assms(3) obtain u where u: "tail = NL # u" by (auto simp: strip_def lstrip_def rstrip_def)
    from False have "rstrip (lstrip l @ tail) = lstrip l @ rstrip tail" by (simp add: rstrip_append)
    moreover from False u have "rstrip tail = NL # rstrip u"
      using rstrip_append [of "[NL]" u]
      by (auto simp: strip_empty_iff isspace_NL split: if_splits)
    ultimately have "hd (split [NL] (rstrip (lstrip l @ tail))) = lstrip l"
      using nl by (simp add: hd_split1)
    then show ?thesis by (simp add: strip_lstrip)
  qed
qed

lemma first_sentence_eq:
  assumes "\<forall>l \<in> set ls. NL \<notin> set l" "first_nonblank_line ls = Some l"
  shows "strip (join [NL] ls) \<noteq> [] \<and> strip (hd (split [NL] (strip (join [NL] ls)))) = strip l"
proof -
  from assms(2) have l: "l \<in> set ls" "strip l \<noteq> []"
    by (auto simp: first_nonblank_line_def find_Some_iff)
  with assms(1) have nl: "NL \<notin> set l" by blast
  from join_lstrip [OF assms(2)] obtain tail where
    t: "lstrip (join [NL] ls) = lstrip l @ tail" "tail = [] \<or> (\<exists>u. tail = NL # u)" by blast
  have "strip (hd (split [NL] (strip (join [NL] ls)))) = strip l"
    using first_sentence_of_tail [OF nl l(2) t(2)] t(1) by (simp add: strip_def)
  moreover have "strip (join [NL] ls) \<noteq> []"
  proof
    assume "strip (join [NL] ls) = []"
    then have "\<forall>c \<in> set (join [NL] ls). isspace c" by (simp add: strip_empty_iff)
    then have "lstrip (join [NL] ls) = []" by (simp add: lstrip_def)
    with t(1) have "lstrip l = []" by simp
    then have "strip l = []" by (simp add: strip_def rstrip_def)
    with l(2) show False by simp
  qed
  ultimately show ?thesis by simp
qed

lemma pronoun_issues_section:
  "filter is_pronoun_issue (check_section i section) =
     (let section_lines = split [NL] (lit ''## '' @ section);
          section_text = strip (join [NL] (tl section_lines));
          first_sentence = strip (hd (split [NL] section_text))
      in if section_text \<noteq> [] \<and> pronoun_match first_sentence
         then [pronoun_issue (hd section_lines) first_sentence] else [])"
proof -
  have cb: "filter is_pronoun_issue (check_code_blocks_in_section s t) = []" for s t
    by (rule filter_none) (auto simp: is_pronoun_issue_def dest: code_block_checks)
  show ?thesis
    by (simp add: check_section_def Let_def cb split_not_Nil is_pronoun_issue_def issue_def pronoun_issue_def)
qed

lemma body_lines_no_NL: "\<forall>l \<in> set (section_body_lines section). NL \<notin> set l"
proof
  fix l assume "l \<in> set (section_body_lines section)"
  then have "l \<in> set (split [NL] (lit ''## '' @ section))"
    unfolding section_body_lines_def by (rule list.set_sel(2) [rotated]) (simp add: split_not_Nil)
  then show "NL \<notin> set l" by (rule split1_pieces)
qed

lemma pronoun_issues_first_nonblank:
  "filter is_pronoun_issue (check_section i section) =
     (case first_nonblank_line (section_body_lines section) of
        None \<Rightarrow> []
      | Some l \<Rightarrow>
          if pronoun_match (strip l)
          then [pronoun_issue (hd (split [NL] (lit ''## '' @ section))) (strip l)] else [])"
proof (cases "first_nonblank_line (section_body_lines section)")
  case None
  then have "strip (join [NL] (tl (split [NL] (lit ''## '' @ section)))) = []"
    using join_blank [of "section_body_lines section"] by (simp add: section_body_lines_def)
  with None show ?thesis by (simp add: pronoun_issues_section)
next
  case (Some l)
  from first_sentence_eq [OF body_lines_no_NL Some]
  have "strip (join [NL] (tl (split [NL] (lit ''## '' @ section)))) \<noteq> []"
    and "strip (hd (split [NL] (strip (join [NL] (tl (split [NL] (lit ''## '' @ section))))))) = strip l"
    by (simp_all add: section_body_lines_def)
  with Some show ?thesis by (simp add: pronoun_issues_section Let_def)
qed

lemma body_after_title:
  assumes "NL \<notin> set title"
  shows "join [NL] (tl (split [NL] (lit ''## '' @ title @ NL # body))) = body"
    and "hd (split [NL] (lit ''## '' @ title @ NL # body)) = lit ''## '' @ title"
proof -
  from assms have "NL \<notin> set (lit ''## '' @ title)" by (simp add: lit_def)
  then have "split [NL] ((lit ''## '' @ title) @ NL # body) = (lit ''## '' @ title) # split [NL] body"
    by (rule split1_append)
  then show "join [NL] (tl (split [NL] (lit ''## '' @ title @ NL # body))) = body"
    and "hd (split [NL] (lit ''## '' @ title @ NL # body)) = lit ''## '' @ title"
    by (simp_all add: join_split)
qed

lemma first_sentence_of_body:
  assumes "strip ws = []" "t \<noteq> []" "\<not> isspace (hd t)" "\<not> isspace (last t)" "NL \<notin> set t"
  shows "strip (ws @ t @ rest) \<noteq> [] \<and> (\<exists>z. strip (hd (split [NL] (strip (ws @ t @ rest)))) = t @ z)"
proof -
  from assms have st: "strip t \<noteq> []" by (simp add: strip_id)
  have "lstrip (ws @ t @ rest) = lstrip (t @ rest)" using assms(1) by (simp add: lstrip_append)
  then have "strip (ws @ t @ rest) = strip (t @ rest)" by (simp add: strip_def)
  moreover from strip_keeps_text [OF assms(2-4)] obtain z where z: "strip (t @ rest) = t @ z" by blast
  moreover have "hd (split [NL] (t @ z)) = t @ takeWhile (\<lambda>x. x \<noteq> NL) z"
    using assms(5) by (auto simp: hd_split_takeWhile intro: takeWhile_append2)
  moreover from strip_keeps_text [OF assms(2-4)] obtain z' where
    "strip (t @ takeWhile (\<lambda>x. x \<noteq> NL) z) = t @ z'" by blast
  ultimately show ?thesis using assms(2) by simp
qed

lemma this_matches: "pronoun_match (lit ''This is a test.'' @ z)"
  by (simp add: pronoun_match_def PRONOUNS_def lit_def isspace_def)

lemma the_matches_not: "\<not> pronoun_match (lit ''The test covers...'' @ z)"
  by (simp add: pronoun_match_def PRONOUNS_def lit_def isspace_def)

text \<open>
  Claim C6, as amended. For every section, the pronoun check takes the first line of
  the section body that is not blank (a line of whitespace only is passed over),
  strips the whitespace at both of its ends, and tests the result against the pattern:
  one of It, This, These, They, That, We, in that case, at the start, followed by a
  whitespace character. It emits one FAIL \<open>section_pronoun\<close> exactly on a match. A
  section whose body begins, after blank lines or none, with \<open>This is a test.\<close> gets
  the FAIL; one whose body begins with \<open>The test covers...\<close> gets none.
\<close>

theorem pronoun_lead_check:
  "filter is_pronoun_issue (check_section i section) =
     (case first_nonblank_line (section_body_lines section) of
        None \<Rightarrow> []
      | Some l \<Rightarrow>
          if pronoun_match (strip l)
          then [pronoun_issue (hd (split [NL] (lit ''## '' @ section))) (strip l)] else [])
   \<and> (\<forall>title ws rest.
         NL \<notin> set title \<and> strip ws = [] \<and> section = title @ NL # ws @ lit ''This is a test.'' @ rest
         \<longrightarrow> (\<exists>x. filter is_pronoun_issue (check_section i section) = [x] \<and> level x = ''FAIL''))
   \<and> (\<forall>title ws rest.
         NL \<notin> set title \<and> strip ws = [] \<and> section = title @ NL # ws @ lit ''The test covers...'' @ rest
         \<longrightarrow> filter is_pronoun_issue (check_section i section) = [])"
proof (intro conjI allI impI)
  show "filter is_pronoun_issue (check_section i section) =
     (case first_nonblank_line (section_body_lines section) of
        None \<Rightarrow> []
      | Some l \<Rightarrow>
          if pronoun_match (strip l)
          then [pronoun_issue (hd (split [NL] (lit ''## '' @ section))) (strip l)] else [])"
    by (rule pronoun_issues_first_nonblank)
next
  fix title ws rest
  assume a: "NL \<notin> set title \<and> strip ws = [] \<and> section = title @ NL # ws @ lit ''This is a test.'' @ rest"
  let ?t = "lit ''This is a test.''"
  have "strip (ws @ ?t @ rest) \<noteq> [] \<and> (\<exists>z. strip (hd (split [NL] (strip (ws @ ?t @ rest)))) = ?t @ z)"
    using a by (intro first_sentence_of_body) (simp_all add: lit_def isspace_def)
  then obtain z where "strip (ws @ ?t @ rest) \<noteq> []"
    "strip (hd (split [NL] (strip (ws @ ?t @ rest)))) = ?t @ z" by blast
  with a this_matches [of z]
  show "\<exists>x. filter is_pronoun_issue (check_section i section) = [x] \<and> level x = ''FAIL''"
    by (simp add: pronoun_issues_section body_after_title pronoun_issue_def)
next
  fix title ws rest
  assume a: "NL \<notin> set title \<and> strip ws = [] \<and> section = title @ NL # ws @ lit ''The test covers...'' @ rest"
  let ?t = "lit ''The test covers...''"
  have "strip (ws @ ?t @ rest) \<noteq> [] \<and> (\<exists>z. strip (hd (split [NL] (strip (ws @ ?t @ rest)))) = ?t @ z)"
    using a by (intro first_sentence_of_body) (simp_all add: lit_def isspace_def)
  then obtain z where "strip (ws @ ?t @ rest) \<noteq> []"
    "strip (hd (split [NL] (strip (ws @ ?t @ rest)))) = ?t @ z" by blast
  with a the_matches_not [of z]
  show "filter is_pronoun_issue (check_section i section) = []"
    by (simp add: pronoun_issues_section body_after_title)
qed

theorem pronoun_lead_check_witness:
  "map check (filter is_pronoun_issue (check_section 1 (lit ''Scope\<newline>\<newline>This is a test. More.\<newline>''))) = [''section_pronoun'']
   \<and> filter is_pronoun_issue (check_section 1 (lit ''Scope\<newline>\<newline>The test covers... all.\<newline>'')) = []"
proof -
  let ?a = "lit ''Scope\<newline>\<newline>This is a test. More.\<newline>''"
  let ?b = "lit ''Scope\<newline>\<newline>The test covers... all.\<newline>''"
  have ha: "NL \<notin> set (lit ''Scope'') \<and> strip [NL] = []
      \<and> ?a = lit ''Scope'' @ NL # [NL] @ lit ''This is a test.'' @ lit '' More.\<newline>''"
    by code_simp
  have hb: "NL \<notin> set (lit ''Scope'') \<and> strip [NL] = []
      \<and> ?b = lit ''Scope'' @ NL # [NL] @ lit ''The test covers...'' @ lit '' all.\<newline>''"
    by code_simp
  from pronoun_lead_check [of 1 ?a] ha
  obtain x where x: "filter is_pronoun_issue (check_section 1 ?a) = [x]" by blast
  then have "x \<in> set (filter is_pronoun_issue (check_section 1 ?a))" by simp
  then have "check x = ''section_pronoun''" by (simp add: is_pronoun_issue_def)
  with x have a: "map check (filter is_pronoun_issue (check_section 1 ?a)) = [''section_pronoun'']" by simp
  from pronoun_lead_check [of 1 ?b] hb
  have b: "filter is_pronoun_issue (check_section 1 ?b) = []" by blast
  from a b show ?thesis by simp
qed

text \<open>
  Claim C6 as stated fails, since the line is stripped before the test. In the first
  section the first non-empty line of the body is indented: the pattern, anchored at
  the start of the line, does not match it, and yet the FAIL is emitted. In the second
  the first non-empty line is \<open>This\<close> and a space: the pattern matches it, and no FAIL
  is emitted.
\<close>

theorem pronoun_lead_raw_line_counterexample:
  "spec_first_nonempty_line (section_body_lines (lit ''Scope\<newline>  This is a test.'')) = Some (lit ''  This is a test.'')
   \<and> \<not> pronoun_match (lit ''  This is a test.'')
   \<and> map check (filter is_pronoun_issue (check_section 1 (lit ''Scope\<newline>  This is a test.''))) = [''section_pronoun'']
   \<and> spec_first_nonempty_line (section_body_lines (lit ''Scope\<newline>This \<newline>is a test.'')) = Some (lit ''This '')
   \<and> pronoun_match (lit ''This '')
   \<and> filter is_pronoun_issue (check_section 1 (lit ''Scope\<newline>This \<newline>is a test.'')) = []"
  by code_simp

section \<open>Properties of the section splitter\<close>

lemma content_decomposition:
  "content = hd (split (lit ''\<newline>## '') content) @ concat (map (\<lambda>s. NL # s) (section_contents content))"
proof -
  let ?sep = "lit ''\<newline>## ''"
  obtain p ps where sp: "split ?sep content = p # ps"
    using split_not_Nil [of ?sep content] by (cases "split ?sep content") auto
  have "content = join ?sep (p # ps)" using join_split [of ?sep content] sp by simp
  also have "\<dots> = p @ concat (map (\<lambda>q. ?sep @ q) ps)" by (rule join_as_concat)
  also have "map (\<lambda>q. ?sep @ q) ps = map (\<lambda>s. NL # s) (map (\<lambda>section. lit ''## '' @ section) ps)"
    by (simp add: lit_def)
  finally show ?thesis using sp by (simp add: section_contents_def)
qed

lemma subseq_concat_dropped: "subseq (concat ss) (concat (map (\<lambda>s. c # s) ss))"
proof (induction ss)
  case Nil
  show ?case by simp
next
  case (Cons s ss)
  have "subseq (s @ concat ss) (s @ concat (map (\<lambda>s. c # s) ss))"
    using Cons by (intro list_emb_append_mono) simp_all
  then have "subseq (s @ concat ss) (c # s @ concat (map (\<lambda>s. c # s) ss))"
    by (rule list_emb_Cons)
  then show ?case by simp
qed

lemma sections_subseq_rest:
  "content = a @ b \<Longrightarrow> length a \<le> length (hd (split (lit ''\<newline>## '') content))
     \<Longrightarrow> subseq (concat (section_contents content)) b"
proof -
  assume c: "content = a @ b" and le: "length a \<le> length (hd (split (lit ''\<newline>## '') content))"
  let ?pre = "hd (split (lit ''\<newline>## '') content)"
  let ?rest = "concat (map (\<lambda>s. NL # s) (section_contents content))"
  have d: "a @ b = ?pre @ ?rest" using content_decomposition [of content] c by simp
  from le obtain z where "?pre = a @ z"
    using d by (metis append_eq_append_conv_if append_take_drop_id)
  with d have "b = z @ ?rest" by simp
  moreover have "subseq (concat (section_contents content)) ?rest" by (rule subseq_concat_dropped)
  ultimately show ?thesis by (simp add: list_emb_append2)
qed

lemma heading_keeps_no_sep:
  "\<not> sublist (lit ''\<newline>## '') p \<Longrightarrow> \<not> sublist (lit ''\<newline>## '') (lit ''## '' @ p)"
  by (simp add: lit_def sublist_Cons_right)

text \<open>
  Claim C1, as amended. For every document, the content is exactly the segment before
  the first section followed by, for every section in order, a newline and the text of
  that section; neither that segment nor a section contains a newline followed by
  \<open>## \<close>, and every section starts with \<open>## \<close>, so that the splitter cuts at every
  level-2 heading after the first line and nowhere else, and no character is
  duplicated. The sections are the regions of the specification whose heading is after
  the first line, in order, each with its exact text except that the newline which
  ends a region before the next level-2 heading belongs to no section; a region whose
  heading is on the first line is in no section. So the concatenation of the sections
  is a subsequence of the content of the document; and it is a subsequence of the
  content after the frontmatter whenever the frontmatter block ends before the first
  section starts (no line of the block starts with \<open>## \<close>). \<open>analyze_file\<close> counts
  the same sections.
\<close>

theorem sections_partition_content:
  "content = hd (split (lit ''\<newline>## '') content) @ concat (map (\<lambda>s. NL # s) (section_contents content))
   \<and> \<not> sublist (lit ''\<newline>## '') (hd (split (lit ''\<newline>## '') content))
   \<and> (\<forall>s \<in> set (section_contents content).
         prefix (lit ''## '') s \<and> \<not> sublist (lit ''\<newline>## '') s)
   \<and> spec_sections content
       = terminated ((if match_h2 content then [hd (split (lit ''\<newline>## '') content)] else [])
                     @ section_contents content)
   \<and> section_contents content
       = unterminated (if match_h2 content then tl (spec_sections content) else spec_sections content)
   \<and> subseq (concat (section_contents content)) content
   \<and> (frontmatter_end content \<le> length (hd (split (lit ''\<newline>## '') content))
        \<longrightarrow> subseq (concat (section_contents content)) (post_frontmatter content))
   \<and> snd (analyze_file content) = length (section_contents content)"
proof -
  let ?sep = "lit ''\<newline>## ''"
  have ne: "?sep \<noteq> []" by (simp add: lit_def)
  have pieces: "\<not> sublist ?sep p" if "p \<in> set (split ?sep content)" for p
    using split_pieces_no_sep [OF ne that] .
  have a: "content = hd (split ?sep content) @ concat (map (\<lambda>s. NL # s) (section_contents content))"
    by (rule content_decomposition)
  have f: "\<not> sublist ?sep (hd (split ?sep content))"
    by (rule pieces) (simp add: split_not_Nil)
  have d: "\<forall>s \<in> set (section_contents content). prefix (lit ''## '') s \<and> \<not> sublist ?sep s"
  proof
    fix s assume "s \<in> set (section_contents content)"
    then obtain p where s: "s = lit ''## '' @ p" and p: "p \<in> set (tl (split ?sep content))"
      by (auto simp: section_contents_def)
    from p have "p \<in> set (split ?sep content)" by (rule list.set_sel(2) [OF split_not_Nil])
    then have "\<not> sublist ?sep s" unfolding s by (intro heading_keeps_no_sep pieces)
    with s show "prefix (lit ''## '') s \<and> \<not> sublist ?sep s" by simp
  qed
  have r2: "spec_sections content
       = terminated ((if match_h2 content then [hd (split ?sep content)] else []) @ section_contents content)"
    by (rule spec_sections_eq)
  have r1: "section_contents content
       = unterminated (if match_h2 content then tl (spec_sections content) else spec_sections content)"
    by (rule section_contents_eq)
  have b: "subseq (concat (section_contents content)) content"
    by (rule sections_subseq_rest [of content "[]"]) simp_all
  have c: "subseq (concat (section_contents content)) (post_frontmatter content)"
    if "frontmatter_end content \<le> length (hd (split ?sep content))"
  proof (rule sections_subseq_rest [of content "take (frontmatter_end content) content"])
    show "content = take (frontmatter_end content) content @ post_frontmatter content"
      by (simp add: post_frontmatter_def)
    show "length (take (frontmatter_end content) content) \<le> length (hd (split ?sep content))"
      using that by simp
  qed
  have e: "snd (analyze_file content) = length (section_contents content)"
    by (simp add: analyze_file_def section_contents_def Let_def)
  from a f d r2 r1 b c e show ?thesis by blast
qed

theorem sections_partition_content_witness:
  "section_contents (lit ''---\<newline>title: x\<newline>---\<newline># T\<newline>intro\<newline>## A\<newline>text\<newline>## B\<newline>more\<newline>'')
     = [lit ''## A\<newline>text'', lit ''## B\<newline>more\<newline>'']
   \<and> spec_sections (lit ''---\<newline>title: x\<newline>---\<newline># T\<newline>intro\<newline>## A\<newline>text\<newline>## B\<newline>more\<newline>'')
     = [lit ''## A\<newline>text\<newline>'', lit ''## B\<newline>more\<newline>'']
   \<and> post_frontmatter (lit ''---\<newline>title: x\<newline>---\<newline># T\<newline>intro\<newline>## A\<newline>text\<newline>## B\<newline>more\<newline>'')
     = lit ''\<newline># T\<newline>intro\<newline>## A\<newline>text\<newline>## B\<newline>more\<newline>''
   \<and> subseq (lit ''## A\<newline>text## B\<newline>more\<newline>'') (lit ''\<newline># T\<newline>intro\<newline>## A\<newline>text\<newline>## B\<newline>more\<newline>'')"
proof -
  let ?c = "lit ''---\<newline>title: x\<newline>---\<newline># T\<newline>intro\<newline>## A\<newline>text\<newline>## B\<newline>more\<newline>''"
  have s: "section_contents ?c = [lit ''## A\<newline>text'', lit ''## B\<newline>more\<newline>'']" by code_simp
  have r: "spec_sections ?c = [lit ''## A\<newline>text\<newline>'', lit ''## B\<newline>more\<newline>'']" by code_simp
  have p: "post_frontmatter ?c = lit ''\<newline># T\<newline>intro\<newline>## A\<newline>text\<newline>## B\<newline>more\<newline>''" by code_simp
  have h: "frontmatter_end ?c \<le> length (hd (split (lit ''\<newline>## '') ?c))" by code_simp
  have cc: "concat [lit ''## A\<newline>text'', lit ''## B\<newline>more\<newline>''] = lit ''## A\<newline>text## B\<newline>more\<newline>''"
    by code_simp
  from sections_partition_content [of ?c] h
  have "subseq (concat (section_contents ?c)) (post_frontmatter ?c)" by blast
  then have "subseq (lit ''## A\<newline>text## B\<newline>more\<newline>'') (lit ''\<newline># T\<newline>intro\<newline>## A\<newline>text\<newline>## B\<newline>more\<newline>'')"
    unfolding s p cc .
  with s r p show ?thesis by simp
qed

text \<open>
  Claim C1 as stated fails, in three ways. The splitter works on the whole content and
  does not know the frontmatter: in the first document below a line of the frontmatter
  (a YAML comment) starts with \<open>## \<close>; the only section starts there and holds the
  rest of the frontmatter, and it is no subsequence of the content after the
  frontmatter. A character of a region is lost: in the second document the region of
  the heading \<open>## A\<close> ends with a newline, and its section does not. And a whole
  region is lost: in the third document the heading \<open>## A\<close> is on the first line, and
  its region is in no section.
\<close>

theorem sections_lose_region_text_counterexample:
  "section_contents (lit ''---\<newline>title: x\<newline>## note\<newline>---\<newline># T\<newline>'') = [lit ''## note\<newline>---\<newline># T\<newline>'']
   \<and> post_frontmatter (lit ''---\<newline>title: x\<newline>## note\<newline>---\<newline># T\<newline>'') = lit ''\<newline># T\<newline>''
   \<and> \<not> subseq (concat (section_contents (lit ''---\<newline>title: x\<newline>## note\<newline>---\<newline># T\<newline>'')))
          (post_frontmatter (lit ''---\<newline>title: x\<newline>## note\<newline>---\<newline># T\<newline>''))
   \<and> spec_sections (lit ''T\<newline>## A\<newline>text\<newline>## B\<newline>more'') = [lit ''## A\<newline>text\<newline>'', lit ''## B\<newline>more'']
   \<and> section_contents (lit ''T\<newline>## A\<newline>text\<newline>## B\<newline>more'') = [lit ''## A\<newline>text'', lit ''## B\<newline>more'']
   \<and> spec_sections (lit ''## A\<newline>text\<newline>## B\<newline>more'') = [lit ''## A\<newline>text\<newline>'', lit ''## B\<newline>more'']
   \<and> section_contents (lit ''## A\<newline>text\<newline>## B\<newline>more'') = [lit ''## B\<newline>more'']"
proof -
  let ?c = "lit ''---\<newline>title: x\<newline>## note\<newline>---\<newline># T\<newline>''"
  have s: "section_contents ?c = [lit ''## note\<newline>---\<newline># T\<newline>'']" by code_simp
  have p: "post_frontmatter ?c = lit ''\<newline># T\<newline>''" by code_simp
  have n: "\<not> subseq (concat (section_contents ?c)) (post_frontmatter ?c)"
  proof
    assume "subseq (concat (section_contents ?c)) (post_frontmatter ?c)"
    then have "length (concat (section_contents ?c)) \<le> length (post_frontmatter ?c)"
      by (rule list_emb_length)
    then show False unfolding s p by (simp add: lit_def)
  qed
  have r2: "spec_sections (lit ''T\<newline>## A\<newline>text\<newline>## B\<newline>more'') = [lit ''## A\<newline>text\<newline>'', lit ''## B\<newline>more'']"
    by code_simp
  have s2: "section_contents (lit ''T\<newline>## A\<newline>text\<newline>## B\<newline>more'') = [lit ''## A\<newline>text'', lit ''## B\<newline>more'']"
    by code_simp
  have r3: "spec_sections (lit ''## A\<newline>text\<newline>## B\<newline>more'') = [lit ''## A\<newline>text\<newline>'', lit ''## B\<newline>more'']"
    by code_simp
  have s3: "section_contents (lit ''## A\<newline>text\<newline>## B\<newline>more'') = [lit ''## B\<newline>more'']"
    by code_simp
  from s p n r2 s2 r3 s3 show ?thesis by simp
qed

section \<open>Properties of the frontmatter checker\<close>

lemma splitlines_first_prefix:
  "splitlines content \<noteq> [] \<Longrightarrow> prefix (hd (splitlines content)) content"
proof (induction content rule: splitlines.induct)
  case 1
  then show ?case by simp
next
  case (2 c)
  then show ?case by simp
next
  case (3 c d cs)
  show ?case
  proof (cases "(c = 13 \<and> d = NL) \<or> is_linebreak c")
    case True
    then show ?thesis by auto
  next
    case False
    show ?thesis
    proof (cases "splitlines (d # cs)")
      case Nil
      with False show ?thesis by simp
    next
      case (Cons l ls)
      with 3(3) False have "prefix l (d # cs)" by simp
      with False Cons show ?thesis by simp
    qed
  qed
qed

lemma h1_first_line_no_delimiter:
  assumes "splitlines content \<noteq> []" "prefix (lit ''# '') (hd (splitlines content))"
  shows "\<not> prefix (lit ''---'') content"
proof
  assume d: "prefix (lit ''---'') content"
  from assms have "prefix (lit ''# '') content"
    using splitlines_first_prefix [OF assms(1)] by (metis prefix_order.trans)
  with d show False by (auto simp: lit_def prefix_def)
qed

lemma in_sequence_Inr:
  "in_sequence ps = Inr xs \<Longrightarrow> x \<in> set xs \<Longrightarrow> \<exists>ys. Inr ys \<in> set ps \<and> x \<in> set ys"
proof (induction ps arbitrary: xs rule: in_sequence.induct)
  case 1
  then show ?case by simp
next
  case (2 e rest)
  then show ?case by simp
next
  case (3 zs rest)
  from 3(2) obtain x2 where r: "in_sequence rest = Inr x2" and xs: "xs = zs @ x2"
    by (auto split: sum.splits)
  show ?case
  proof (cases "x \<in> set zs")
    case True
    then show ?thesis by auto
  next
    case False
    with 3(3) xs have "x \<in> set x2" by simp
    from 3(1) [OF r this] show ?thesis by auto
  qed
qed

lemma check_enum_ids:
  "check_enum fm field valid = Inr ys \<Longrightarrow> x \<in> set ys \<Longrightarrow> check x = ''frontmatter_'' @ field"
  by (auto simp: check_enum_def issue_def split: option.splits sum.splits if_splits)

lemma check_fields_not_h1:
  assumes "check_fields L fm = Inr xs" "x \<in> set xs"
  shows "check x \<noteq> ''frontmatter_h1_before''"
proof -
  from in_sequence_Inr [OF assms [unfolded check_fields_def]] obtain ys where
    ys: "Inr ys \<in> set [Inr (check_required fm),
        check_enum fm ''stack'' VALID_STACKS,
        check_enum fm ''priority'' VALID_PRIORITIES,
        check_enum fm ''audience'' VALID_AUDIENCES,
        check_enum fm ''complexity'' VALID_COMPLEXITIES,
        Inr (check_confidence L fm),
        Inr (check_date L fm),
        Inr (check_tags fm)]" "x \<in> set ys" by blast
  have r: "y \<in> set (check_required fm) \<Longrightarrow> check y = ''frontmatter_required_fields''" for y
    by (auto simp: check_required_def issue_def Let_def split: if_splits)
  have c: "y \<in> set (check_confidence L fm) \<Longrightarrow> check y = ''frontmatter_confidence''" for y
    by (auto simp: check_confidence_def issue_def Let_def split: if_splits option.splits)
  have d: "y \<in> set (check_date L fm) \<Longrightarrow> check y = ''frontmatter_date''" for y
    by (auto simp: check_date_def issue_def Let_def split: if_splits option.splits)
  have t: "y \<in> set (check_tags fm) \<Longrightarrow> check y = ''frontmatter_tags''" for y
  proof (cases "lookup fm ''tags''")
    case None
    assume "y \<in> set (check_tags fm)"
    with None show ?thesis by (simp add: check_tags_def)
  next
    case (Some tags)
    assume "y \<in> set (check_tags fm)"
    with Some show ?thesis
      by (cases tags) (auto simp: check_tags_def issue_def split: if_splits)
  qed
  from ys consider
      "ys = check_required fm" | "check_enum fm ''stack'' VALID_STACKS = Inr ys"
    | "check_enum fm ''priority'' VALID_PRIORITIES = Inr ys"
    | "check_enum fm ''audience'' VALID_AUDIENCES = Inr ys"
    | "check_enum fm ''complexity'' VALID_COMPLEXITIES = Inr ys"
    | "ys = check_confidence L fm" | "ys = check_date L fm" | "ys = check_tags fm"
    by auto
  then show ?thesis
  proof cases
    case 1 with ys r show ?thesis by auto
  next
    case 2 from check_enum_ids [OF this ys(2)] show ?thesis by simp
  next
    case 3 from check_enum_ids [OF this ys(2)] show ?thesis by simp
  next
    case 4 from check_enum_ids [OF this ys(2)] show ?thesis by simp
  next
    case 5 from check_enum_ids [OF this ys(2)] show ?thesis by simp
  next
    case 6 with ys c show ?thesis by auto
  next
    case 7 with ys d show ?thesis by auto
  next
    case 8 with ys t show ?thesis by auto
  qed
qed

lemma delimiter_first_line_no_h1:
  assumes "prefix (lit ''---'') content"
  shows "\<not> (splitlines content \<noteq> [] \<and> prefix (lit ''# '') (hd (splitlines content)))"
  using assms h1_first_line_no_delimiter by blast

lemma validate_frontmatter_delimited:
  assumes "prefix (lit ''---'') content"
  shows "validate_frontmatter L content =
     (case find_str content (lit ''---'') 3 of
        None \<Rightarrow>
          Inr [issue ''FAIL'' ''frontmatter_end''
                 [Lit ''Frontmatter not properly closed (missing second \"---\")'']]
      | Some second_delim \<Rightarrow>
          (case safe_load L (strip (take (second_delim - 3) (drop 3 content))) of
             Inl (YAMLError e) \<Rightarrow>
               Inr [issue ''FAIL'' ''frontmatter_parse'' [Lit ''Frontmatter YAML parse error: '', Str e]]
           | Inl other \<Rightarrow> Inl other
           | Inr (YDict frontmatter) \<Rightarrow> check_fields L frontmatter
           | Inr other \<Rightarrow>
               Inr [issue ''FAIL'' ''frontmatter_parse''
                      [Lit ''Frontmatter did not parse to a dictionary'']]))"
proof -
  have nh: "(splitlines content \<noteq> [] \<and> prefix (lit ''# '') (hd (splitlines content))) = False"
    using delimiter_first_line_no_h1 [OF assms] by blast
  show ?thesis
    using assms
    by (simp add: validate_frontmatter_def check_frontmatter_def nh Let_def split: option.splits)
qed

text \<open>
  Claim C3 does not hold of the code. A document whose first line is a level-1 heading
  does not start with \<open>---\<close>, so the checker stops at its first test with the FAIL
  \<open>frontmatter_start\<close>; the test for a level-1 heading comes second and is never
  reached with a first line that passes it. No document gets the issue
  \<open>frontmatter_h1_before\<close>.
\<close>

theorem h1_before_frontmatter_never_reported:
  "(splitlines content \<noteq> [] \<and> prefix (lit ''# '') (hd (splitlines content))
      \<longrightarrow> validate_frontmatter L content = Inr [frontmatter_start_issue])
   \<and> (\<forall>issues. validate_frontmatter L content = Inr issues
      \<longrightarrow> ''frontmatter_h1_before'' \<notin> check ` set issues)"
proof (intro conjI allI impI)
  assume "splitlines content \<noteq> [] \<and> prefix (lit ''# '') (hd (splitlines content))"
  then have "\<not> prefix (lit ''---'') content" using h1_first_line_no_delimiter by blast
  then show "validate_frontmatter L content = Inr [frontmatter_start_issue]"
    by (simp add: validate_frontmatter_def check_frontmatter_def frontmatter_start_issue_def issue_def)
next
  fix issues
  assume v: "validate_frontmatter L content = Inr issues"
  show "''frontmatter_h1_before'' \<notin> check ` set issues"
  proof (cases "prefix (lit ''---'') content")
    case False
    with v show ?thesis
      by (auto simp: validate_frontmatter_def check_frontmatter_def issue_def)
  next
    case True
    from v show ?thesis
      unfolding validate_frontmatter_delimited [OF True]
      by (auto simp: issue_def dest: check_fields_not_h1
          split: option.splits sum.splits exc.splits yaml.splits)
  qed
qed

theorem h1_before_frontmatter_never_reported_witness:
  "splitlines (lit ''# Title\<newline>---\<newline>title: x\<newline>---\<newline>'') = [lit ''# Title'', lit ''---'', lit ''title: x'', lit ''---'']
   \<and> validate_frontmatter
        \<lparr>safe_load = (\<lambda>text. Inr (YDict [(YStr (lit ''title''), YStr (lit ''x''))])),
         container_str = (\<lambda>v. []), fromisoformat = (\<lambda>s. True),
         isdecimal = (\<lambda>c. 48 \<le> c \<and> c \<le> 57)\<rparr>
        (lit ''# Title\<newline>---\<newline>title: x\<newline>---\<newline>'')
      = Inr [frontmatter_start_issue]"
proof -
  let ?c = "lit ''# Title\<newline>---\<newline>title: x\<newline>---\<newline>''"
  let ?L = "\<lparr>safe_load = (\<lambda>text. Inr (YDict [(YStr (lit ''title''), YStr (lit ''x''))])),
         container_str = (\<lambda>v. []), fromisoformat = (\<lambda>s. True),
         isdecimal = (\<lambda>c. 48 \<le> c \<and> c \<le> 57)\<rparr>"
  have s: "splitlines ?c = [lit ''# Title'', lit ''---'', lit ''title: x'', lit ''---'']" by code_simp
  have "prefix (lit ''# '') (lit ''# Title'')" by code_simp
  with s have h: "splitlines ?c \<noteq> [] \<and> prefix (lit ''# '') (hd (splitlines ?c))" by simp
  from h1_before_frontmatter_never_reported [of ?c ?L] h
  have "validate_frontmatter ?L ?c = Inr [frontmatter_start_issue]" by blast
  with s show ?thesis by simp
qed

lemma missing_tags_invalid_stack_two_fails:
  assumes "lookup fm ''tags'' = None"
    and "lookup fm ''stack'' = Some (YStr (lit ''invalid-value''))"
    and "lookup fm ''title'' = Some v1" "lookup fm ''category'' = Some v2"
    and "lookup fm ''subcategory'' = Some v3" "lookup fm ''doc_type'' = Some v4"
    and "lookup fm ''priority'' = Some (YStr p)" "p \<in> set (map lit VALID_PRIORITIES)"
    and "lookup fm ''audience'' = Some (YStr a)" "a \<in> set (map lit VALID_AUDIENCES)"
    and "lookup fm ''complexity'' = Some (YStr c)" "c \<in> set (map lit VALID_COMPLEXITIES)"
    and "lookup fm ''source_confidence'' = Some sc" "match_confidence L (py_str L sc)"
    and "lookup fm ''last_updated'' = Some lu" "fromisoformat L (py_str L lu)"
  shows "check_fields L fm =
     Inr [required_fields_issue [''tags''], invalid_stack_issue (YStr (lit ''invalid-value''))]"
proof -
  have r: "check_required fm = [required_fields_issue [''tags'']]"
    using assms by (simp add: check_required_def REQUIRED_FRONTMATTER_def required_fields_issue_def issue_def)
  have "lit ''invalid-value'' \<notin> set (map lit VALID_STACKS)"
    by (simp add: VALID_STACKS_def lit_inj)
  then have s: "check_enum fm ''stack'' VALID_STACKS = Inr [invalid_stack_issue (YStr (lit ''invalid-value''))]"
    using assms(2) by (simp add: check_enum_def not_in_def invalid_stack_issue_def issue_def)
  have p: "check_enum fm ''priority'' VALID_PRIORITIES = Inr []"
    using assms(7,8) by (simp add: check_enum_def not_in_def)
  have a: "check_enum fm ''audience'' VALID_AUDIENCES = Inr []"
    using assms(9,10) by (simp add: check_enum_def not_in_def)
  have c: "check_enum fm ''complexity'' VALID_COMPLEXITIES = Inr []"
    using assms(11,12) by (simp add: check_enum_def not_in_def)
  have cf: "check_confidence L fm = []"
    using assms(13,14) by (simp add: check_confidence_def)
  have d: "check_date L fm = []"
    using assms(15,16) by (simp add: check_date_def)
  have t: "check_tags fm = []"
    using assms(1) by (simp add: check_tags_def)
  show ?thesis by (simp add: check_fields_def r s p a c cf d t)
qed

lemma missing_tags_invalid_stack_example:
  "check_fields
     \<lparr>safe_load = (\<lambda>text. Inr (YDict string_stack_frontmatter)),
      container_str = (\<lambda>v. []), fromisoformat = (\<lambda>s. True),
      isdecimal = (\<lambda>c. 48 \<le> c \<and> c \<le> 57)\<rparr>
     string_stack_frontmatter
   = Inr [required_fields_issue [''tags''], invalid_stack_issue (YStr (lit ''invalid-value''))]"
proof (rule missing_tags_invalid_stack_two_fails)
  show "lookup string_stack_frontmatter ''tags'' = None" by code_simp
  show "lookup string_stack_frontmatter ''stack'' = Some (YStr (lit ''invalid-value''))" by code_simp
  show "lookup string_stack_frontmatter ''title'' = Some (YStr (lit ''T''))" by code_simp
  show "lookup string_stack_frontmatter ''category'' = Some (YStr (lit ''c''))" by code_simp
  show "lookup string_stack_frontmatter ''subcategory'' = Some (YStr (lit ''s''))" by code_simp
  show "lookup string_stack_frontmatter ''doc_type'' = Some (YStr (lit ''standard''))" by code_simp
  show "lookup string_stack_frontmatter ''priority'' = Some (YStr (lit ''high''))" by code_simp
  show "lit ''high'' \<in> set (map lit VALID_PRIORITIES)" by code_simp
  show "lookup string_stack_frontmatter ''audience'' = Some (YStr (lit ''frontend''))" by code_simp
  show "lit ''frontend'' \<in> set (map lit VALID_AUDIENCES)" by code_simp
  show "lookup string_stack_frontmatter ''complexity'' = Some (YStr (lit ''beginner''))" by code_simp
  show "lit ''beginner'' \<in> set (map lit VALID_COMPLEXITIES)" by code_simp
  show "lookup string_stack_frontmatter ''source_confidence'' = Some (YStr (lit ''95%''))" by code_simp
  show "match_confidence
     \<lparr>safe_load = (\<lambda>text. Inr (YDict string_stack_frontmatter)),
      container_str = (\<lambda>v. []), fromisoformat = (\<lambda>s. True),
      isdecimal = (\<lambda>c. 48 \<le> c \<and> c \<le> 57)\<rparr>
     (py_str
       \<lparr>safe_load = (\<lambda>text. Inr (YDict string_stack_frontmatter)),
        container_str = (\<lambda>v. []), fromisoformat = (\<lambda>s. True),
        isdecimal = (\<lambda>c. 48 \<le> c \<and> c \<le> 57)\<rparr>
       (YStr (lit ''95%'')))"
    by (simp add: py_str_def match_confidence_def lit_def)
  show "lookup string_stack_frontmatter ''last_updated'' = Some (YOther (lit ''2024-01-15''))" by code_simp
  show "fromisoformat
     \<lparr>safe_load = (\<lambda>text. Inr (YDict string_stack_frontmatter)),
      container_str = (\<lambda>v. []), fromisoformat = (\<lambda>s. True),
      isdecimal = (\<lambda>c. 48 \<le> c \<and> c \<le> 57)\<rparr>
     (py_str
       \<lparr>safe_load = (\<lambda>text. Inr (YDict string_stack_frontmatter)),
        container_str = (\<lambda>v. []), fromisoformat = (\<lambda>s. True),
        isdecimal = (\<lambda>c. 48 \<le> c \<and> c \<le> 57)\<rparr>
       (YOther (lit ''2024-01-15'')))"
    by simp
qed

lemma unhashable_stack_raises: "check_fields L unhashable_stack_frontmatter = Inl TypeError"
proof -
  have s: "check_enum unhashable_stack_frontmatter ''stack'' VALID_STACKS = Inl TypeError"
    by (simp add: check_enum_def lookup_def unhashable_stack_frontmatter_def not_in_def lit_inj)
  show ?thesis by (simp add: check_fields_def s)
qed

text \<open>
  Claim C7 does not hold of the code in general. On a frontmatter without \<open>tags\<close>
  whose \<open>stack\<close> is a list, two schema violations, the checker reports nothing: the
  test \<open>frontmatter['stack'] not in VALID_STACKS\<close> raises \<open>TypeError\<close>, which leaves
  \<open>_check_frontmatter\<close>. (With a \<open>stack\<close> that is a string, the two FAILs of the claim
  are reported: lemma \<open>missing_tags_invalid_stack_two_fails\<close>.)
\<close>

theorem unhashable_enum_value_raises:
  "check_fields L unhashable_stack_frontmatter = Inl TypeError
   \<and> lookup unhashable_stack_frontmatter ''tags'' = None
   \<and> (prefix (lit ''---'') content \<and> find_str content (lit ''---'') 3 = Some second_delim
        \<and> safe_load L (strip (take (second_delim - 3) (drop 3 content))) = Inr (YDict unhashable_stack_frontmatter)
      \<longrightarrow> validate_frontmatter L content = Inl TypeError)"
proof (intro conjI impI)
  show "check_fields L unhashable_stack_frontmatter = Inl TypeError" by (rule unhashable_stack_raises)
  show "lookup unhashable_stack_frontmatter ''tags'' = None"
    by (simp add: lookup_def unhashable_stack_frontmatter_def lit_inj)
next
  assume a: "prefix (lit ''---'') content \<and> find_str content (lit ''---'') 3 = Some second_delim
        \<and> safe_load L (strip (take (second_delim - 3) (drop 3 content))) = Inr (YDict unhashable_stack_frontmatter)"
  then have "prefix (lit ''---'') content" by simp
  from validate_frontmatter_delimited [OF this, of L] a
  show "validate_frontmatter L content = Inl TypeError"
    by (simp add: unhashable_stack_raises)
qed

theorem unhashable_enum_value_raises_witness:
  "validate_frontmatter
     \<lparr>safe_load = (\<lambda>text.
          if text = lit ''title: T\<newline>category: c\<newline>subcategory: s\<newline>stack: [invalid-value]\<newline>priority: high\<newline>audience: frontend\<newline>complexity: beginner\<newline>doc_type: standard\<newline>source_confidence: 95%\<newline>last_updated: 2024-01-15''
          then Inr (YDict unhashable_stack_frontmatter) else Inl (YAMLError [])),
       container_str = (\<lambda>v. []), fromisoformat = (\<lambda>s. True), isdecimal = (\<lambda>c. 48 \<le> c \<and> c \<le> 57)\<rparr>
     (lit ''---\<newline>title: T\<newline>category: c\<newline>subcategory: s\<newline>stack: [invalid-value]\<newline>priority: high\<newline>audience: frontend\<newline>complexity: beginner\<newline>doc_type: standard\<newline>source_confidence: 95%\<newline>last_updated: 2024-01-15\<newline>---\<newline># T\<newline>'')
   = Inl TypeError"
proof -
  let ?text = "lit ''title: T\<newline>category: c\<newline>subcategory: s\<newline>stack: [invalid-value]\<newline>priority: high\<newline>audience: frontend\<newline>complexity: beginner\<newline>doc_type: standard\<newline>source_confidence: 95%\<newline>last_updated: 2024-01-15''"
  let ?L = "\<lparr>safe_load = (\<lambda>text. if text = ?text
          then Inr (YDict unhashable_stack_frontmatter) else Inl (YAMLError [])),
       container_str = (\<lambda>v. []), fromisoformat = (\<lambda>s. True), isdecimal = (\<lambda>c. 48 \<le> c \<and> c \<le> 57)\<rparr>"
  let ?c = "lit ''---\<newline>title: T\<newline>category: c\<newline>subcategory: s\<newline>stack: [invalid-value]\<newline>priority: high\<newline>audience: frontend\<newline>complexity: beginner\<newline>doc_type: standard\<newline>source_confidence: 95%\<newline>last_updated: 2024-01-15\<newline>---\<newline># T\<newline>''"
  have p: "prefix (lit ''---'') ?c" by code_simp
  have f: "find_str ?c (lit ''---'') 3 = Some 185" by code_simp
  have t: "strip (take (185 - 3) (drop 3 ?c)) = ?text" by code_simp
  have "safe_load ?L (strip (take (185 - 3) (drop 3 ?c))) = Inr (YDict unhashable_stack_frontmatter)"
    unfolding t by simp
  with p f unhashable_enum_value_raises [of ?L ?c 185] show ?thesis by blast
qed

end
